theory Spec2Isabelle
  imports Complex_Main
begin

section \<open>Data model\<close>

text \<open>
  The Python sources under \<open>src/fair\<close> work on a numpy integer array \<open>X\<close> with one row
  per item and one column per agent plus a last column holding the unallocated units of
  the item. The array is modelled by the list of its rows. Indices are natural numbers;
  reading or writing outside the array raises \<open>IndexError\<close> in numpy and is an error value
  here.

  An item carries its capacity. \<open>BaseItem.__eq__\<close> compares hashes of the name and of the
  feature values only, so the field \<open>ident\<close> stands for that hash and capacity takes no
  part in the comparison \<open>g not in bundle\<close>.

  The class of agents is not among the sources; an agent is the record of the four
  queries the allocation code calls on it, each a pure function.
\<close>

datatype error = IndexError | TypeError | ValueError | ZeroDivisionError | NetworkXError

record item =
  ident :: nat
  capacity :: int

record agent =
  valuation :: "item list \<Rightarrow> real"
  marginal_contribution :: "item list \<Rightarrow> item \<Rightarrow> real"
  exchange_contribution :: "item list \<Rightarrow> item \<Rightarrow> item \<Rightarrow> bool"
  get_desired_items_indexes :: "item list \<Rightarrow> nat list"

type_synonym matrix = "int list list"

text \<open>Sequencing of computations that may raise: the first error wins.\<close>

fun bind_r :: "error + 'a \<Rightarrow> ('a \<Rightarrow> error + 'b) \<Rightarrow> error + 'b" where
  "bind_r (Inl e) f = Inl e"
| "bind_r (Inr x) f = f x"

text \<open>\<open>X[:, j]\<close>: the column of an agent (or of the slack, for \<open>j = M\<close>).\<close>

definition column :: "matrix \<Rightarrow> nat \<Rightarrow> error + int list" where
  "column X j =
     (if list_all (\<lambda>row. j < length row) X then Inr (map (\<lambda>row. row ! j) X)
      else Inl IndexError)"

text \<open>
  The loop of \<open>get_bundle_from_allocation_matrix\<close>: \<open>i\<close> runs over the rows of the column,
  and \<open>items[i]\<close> is read only where the entry is 1.
\<close>

fun collect_bundle :: "item list \<Rightarrow> nat \<Rightarrow> int list \<Rightarrow> error + item list" where
  "collect_bundle items i [] = Inr []"
| "collect_bundle items i (x # xs) =
     (if x = 1 then
        (if i < length items
         then bind_r (collect_bundle items (Suc i) xs) (\<lambda>b. Inr (items ! i # b))
         else Inl IndexError)
      else collect_bundle items (Suc i) xs)"

definition get_bundle_from_allocation_matrix ::
    "matrix \<Rightarrow> item list \<Rightarrow> nat \<Rightarrow> error + item list" where
  "get_bundle_from_allocation_matrix X items agent_index =
     bind_r (column X agent_index) (collect_bundle items 0)"

text \<open>An allocation matrix for \<open>N\<close> items and \<open>M\<close> agents has \<open>N\<close> rows of \<open>M + 1\<close> entries.\<close>

definition matrix_shape :: "matrix \<Rightarrow> nat \<Rightarrow> nat \<Rightarrow> bool" where
  "matrix_shape X N M = (length X = N \<and> list_all (\<lambda>row. length row = M + 1) X)"

section \<open>Envy metrics (\<open>src/fair/envy.py\<close>)\<close>

text \<open>\<open>new_bundle = other_bundle.copy(); new_bundle.pop(index)\<close>\<close>

definition pop_index :: "nat \<Rightarrow> 'a list \<Rightarrow> 'a list" where
  "pop_index k b = take k b @ drop (Suc k) b"

text \<open>
  The innermost loops of \<open>EF_1_*\<close> and \<open>EF_X_*\<close> over \<open>enumerate(other_bundle)\<close>, with their
  flags and their \<open>break\<close>.
\<close>

fun there_is_no_item :: "agent \<Rightarrow> real \<Rightarrow> item list \<Rightarrow> nat list \<Rightarrow> bool" where
  "there_is_no_item ag cur other [] = True"
| "there_is_no_item ag cur other (k # ks) =
     (if valuation ag (pop_index k other) \<le> cur then False
      else there_is_no_item ag cur other ks)"

fun not_for_every_item :: "agent \<Rightarrow> real \<Rightarrow> item list \<Rightarrow> nat list \<Rightarrow> bool" where
  "not_for_every_item ag cur other [] = False"
| "not_for_every_item ag cur other (k # ks) =
     (if cur < valuation ag (pop_index k other) then True
      else not_for_every_item ag cur other ks)"

text \<open>
  What decides, for the pair at hand, whether the counter is incremented: the test of
  \<open>EF_count\<close>/\<open>EF_agents\<close>, of \<open>EF_1_count\<close>/\<open>EF_1_agents\<close> and of \<open>EF_X_count\<close>/\<open>EF_X_agents\<close>.
\<close>

definition EF_test :: "agent \<Rightarrow> real \<Rightarrow> item list \<Rightarrow> bool" where
  "EF_test ag cur other = (cur < valuation ag other)"

definition EF_1_test :: "agent \<Rightarrow> real \<Rightarrow> item list \<Rightarrow> bool" where
  "EF_1_test ag cur other =
     (if cur < valuation ag other then there_is_no_item ag cur other [0..<length other]
      else False)"

definition EF_X_test :: "agent \<Rightarrow> real \<Rightarrow> item list \<Rightarrow> bool" where
  "EF_X_test ag cur other =
     (if cur < valuation ag other then not_for_every_item ag cur other [0..<length other]
      else False)"

text \<open>
  The six functions of \<open>envy.py\<close> are the same two nested loops; they differ in the test
  and in whether a hit ends the inner loop (\<open>brk\<close>, the \<open>break\<close> of the \<open>*_agents\<close>
  functions). \<open>envy_inner\<close> is the loop over \<open>agent_2_index\<close>, \<open>envy_outer\<close> the loop over
  \<open>enumerate(agents)\<close>.
\<close>

fun envy_inner ::
    "bool \<Rightarrow> (agent \<Rightarrow> real \<Rightarrow> item list \<Rightarrow> bool) \<Rightarrow> matrix \<Rightarrow> item list \<Rightarrow> agent \<Rightarrow> nat \<Rightarrow> real
      \<Rightarrow> nat list \<Rightarrow> nat \<Rightarrow> error + nat" where
  "envy_inner brk test X items ag i cur [] cnt = Inr cnt"
| "envy_inner brk test X items ag i cur (j # js) cnt =
     (if i \<noteq> j then
        bind_r (get_bundle_from_allocation_matrix X items j) (\<lambda>other.
          if test ag cur other
          then (if brk then Inr (cnt + 1)
                else envy_inner brk test X items ag i cur js (cnt + 1))
          else envy_inner brk test X items ag i cur js cnt)
      else envy_inner brk test X items ag i cur js cnt)"

fun envy_outer ::
    "bool \<Rightarrow> (agent \<Rightarrow> real \<Rightarrow> item list \<Rightarrow> bool) \<Rightarrow> matrix \<Rightarrow> agent list \<Rightarrow> item list
      \<Rightarrow> nat list \<Rightarrow> nat \<Rightarrow> error + nat" where
  "envy_outer brk test X agents items [] cnt = Inr cnt"
| "envy_outer brk test X agents items (i # ixs) cnt =
     bind_r (get_bundle_from_allocation_matrix X items i) (\<lambda>current_bundle.
       bind_r (envy_inner brk test X items (agents ! i) i
                 (valuation (agents ! i) current_bundle) [0..<length agents] cnt)
         (\<lambda>cnt'. envy_outer brk test X agents items ixs cnt'))"

definition EF_count :: "matrix \<Rightarrow> agent list \<Rightarrow> item list \<Rightarrow> error + nat" where
  "EF_count X agents items = envy_outer False EF_test X agents items [0..<length agents] 0"

definition EF_agents :: "matrix \<Rightarrow> agent list \<Rightarrow> item list \<Rightarrow> error + nat" where
  "EF_agents X agents items = envy_outer True EF_test X agents items [0..<length agents] 0"

definition EF_1_count :: "matrix \<Rightarrow> agent list \<Rightarrow> item list \<Rightarrow> error + nat" where
  "EF_1_count X agents items = envy_outer False EF_1_test X agents items [0..<length agents] 0"

definition EF_1_agents :: "matrix \<Rightarrow> agent list \<Rightarrow> item list \<Rightarrow> error + nat" where
  "EF_1_agents X agents items = envy_outer True EF_1_test X agents items [0..<length agents] 0"

definition EF_X_count :: "matrix \<Rightarrow> agent list \<Rightarrow> item list \<Rightarrow> error + nat" where
  "EF_X_count X agents items = envy_outer False EF_X_test X agents items [0..<length agents] 0"

definition EF_X_agents :: "matrix \<Rightarrow> agent list \<Rightarrow> item list \<Rightarrow> error + nat" where
  "EF_X_agents X agents items = envy_outer True EF_X_test X agents items [0..<length agents] 0"

subsection \<open>Closed forms and the specification's wording\<close>

text \<open>
  The bundle of agent \<open>j\<close> in a matrix of the right shape: the items of the rows whose entry
  in column \<open>j\<close> is 1, in the order of the rows.
\<close>

definition bundle_of :: "matrix \<Rightarrow> item list \<Rightarrow> nat \<Rightarrow> item list" where
  "bundle_of X items j = map (\<lambda>i. items ! i) (filter (\<lambda>i. X ! i ! j = 1) [0..<length X])"

text \<open>
  The pair \<open>(i, j)\<close> makes the counter of an envy metric go up: \<open>i \<noteq> j\<close> and the metric's
  test holds for agent \<open>i\<close>, its own utility and the bundle of \<open>j\<close>.
\<close>

definition pair_hit ::
    "(agent \<Rightarrow> real \<Rightarrow> item list \<Rightarrow> bool) \<Rightarrow> matrix \<Rightarrow> agent list \<Rightarrow> item list \<Rightarrow> nat \<Rightarrow> nat \<Rightarrow> bool" where
  "pair_hit test X agents items i j =
     (i \<noteq> j \<and> test (agents ! i) (valuation (agents ! i) (bundle_of X items i)) (bundle_of X items j))"

text \<open>
  The specification's wording of a violation of EF-1 by the ordered pair \<open>(i, j)\<close>: agent
  \<open>i\<close> values the bundle of \<open>j\<close> strictly more than its own, and no single item that can be
  removed from the bundle of \<open>j\<close> brings the value down to the value of its own bundle or
  below. Removing a single item is stated on the bundle itself: the bundle is
  \<open>before @ removed # after\<close> and the reduced bundle is \<open>before @ after\<close>.
\<close>

definition spec_EF_1_violated :: "matrix \<Rightarrow> agent list \<Rightarrow> item list \<Rightarrow> nat \<Rightarrow> nat \<Rightarrow> bool" where
  "spec_EF_1_violated X agents items i j =
     (valuation (agents ! i) (bundle_of X items i) < valuation (agents ! i) (bundle_of X items j) \<and>
      \<not> (\<exists>before removed after.
            bundle_of X items j = before @ removed # after \<and>
            valuation (agents ! i) (before @ after)
              \<le> valuation (agents ! i) (bundle_of X items i)))"

subsection \<open>Sample data for the envy metrics\<close>

text \<open>
  Two items of capacity 1, an agent that values a bundle at 1 when it holds the first
  item and at 0 otherwise, and an agent that values every bundle at 0. In \<open>envy_X\<close> the
  agent of column 1 holds both items and the agent of column 0 holds nothing.
\<close>

definition item_a :: item where "item_a = \<lparr>ident = 0, capacity = 1\<rparr>"
definition item_b :: item where "item_b = \<lparr>ident = 1, capacity = 1\<rparr>"

definition likes_a :: agent where
  "likes_a = \<lparr>valuation = (\<lambda>b. if item_a \<in> set b then 1 else 0),
               marginal_contribution = (\<lambda>b g. 0),
               exchange_contribution = (\<lambda>b x y. False),
               get_desired_items_indexes = (\<lambda>items. [])\<rparr>"

definition indifferent :: agent where
  "indifferent = \<lparr>valuation = (\<lambda>b. 0),
               marginal_contribution = (\<lambda>b g. 0),
               exchange_contribution = (\<lambda>b x y. False),
               get_desired_items_indexes = (\<lambda>items. [])\<rparr>"

definition envy_X :: matrix where "envy_X = [[0, 1, 0], [0, 1, 0]]"

section \<open>Allocation matrix and exchange graph (\<open>src/fair/allocation.py\<close>)\<close>

subsection \<open>Reading and writing the matrix\<close>

text \<open>
  \<open>initialize_allocation_matrix\<close>: a row of zeros for every item, with the capacity of the
  item in the last column. The capacity is copied as it is; nothing checks its sign.
\<close>

definition initialize_allocation_matrix :: "item list \<Rightarrow> agent list \<Rightarrow> matrix" where
  "initialize_allocation_matrix items agents =
     map (\<lambda>it. replicate (length agents) 0 @ [capacity it]) items"

text \<open>\<open>X[i, j]\<close> read and assigned; numpy raises \<open>IndexError\<close> outside the array.\<close>

definition get_entry :: "matrix \<Rightarrow> nat \<Rightarrow> nat \<Rightarrow> error + int" where
  "get_entry X i j =
     (if i < length X \<and> j < length (X ! i) then Inr (X ! i ! j) else Inl IndexError)"

definition set_entry :: "matrix \<Rightarrow> nat \<Rightarrow> nat \<Rightarrow> int \<Rightarrow> error + matrix" where
  "set_entry X i j v =
     (if i < length X \<and> j < length (X ! i) then Inr (X[i := (X ! i)[j := v]])
      else Inl IndexError)"

text \<open>
  \<open>X[i, None] = v\<close>: in numpy the index \<open>None\<close> stands for a new axis, so the assignment
  writes \<open>v\<close> into every entry of row \<open>i\<close>. This is what \<open>update_allocation\<close> executes when
  \<open>find_agent\<close> has returned \<open>None\<close>.
\<close>

definition set_row :: "matrix \<Rightarrow> nat \<Rightarrow> int \<Rightarrow> error + matrix" where
  "set_row X i v =
     (if i < length X then Inr (X[i := replicate (length (X ! i)) v]) else Inl IndexError)"

text \<open>\<open>get_owners_list\<close>: \<open>np.nonzero\<close> of the row, the slack column included.\<close>

definition get_owners_list :: "matrix \<Rightarrow> nat \<Rightarrow> error + nat list" where
  "get_owners_list X item_index =
     (if item_index < length X
      then Inr (filter (\<lambda>j. X ! item_index ! j \<noteq> 0) [0..<length (X ! item_index)])
      else Inl IndexError)"

definition get_bundle_indexes_from_allocation_matrix :: "matrix \<Rightarrow> nat \<Rightarrow> error + nat list" where
  "get_bundle_indexes_from_allocation_matrix X agent_index =
     bind_r (column X agent_index) (\<lambda>items_list.
       Inr (filter (\<lambda>i. items_list ! i = 1) [0..<length items_list]))"

text \<open>
  \<open>list(set(lis))\<close>. The order in which Python iterates over a set of small integers is an
  implementation detail; the model takes the increasing order. The order only decides
  in which order edges are inserted into the graph.
\<close>

definition py_set_list :: "nat list \<Rightarrow> nat list" where
  "py_set_list lis = sort (remdups lis)"

text \<open>
  \<open>get_multiple_agents_desired_items\<close>. The list of agent indices may hold \<open>None\<close> (what
  \<open>find_agent\<close> returns when nobody is willing); \<open>agents[None]\<close> raises \<open>TypeError\<close>.
\<close>

fun desired_items_loop ::
    "agent list \<Rightarrow> item list \<Rightarrow> nat option list \<Rightarrow> nat list \<Rightarrow> error + nat list" where
  "desired_items_loop agents items [] lis = Inr lis"
| "desired_items_loop agents items (None # rest) lis = Inl TypeError"
| "desired_items_loop agents items (Some agent_index # rest) lis =
     (if agent_index < length agents
      then desired_items_loop agents items rest
             (lis @ get_desired_items_indexes (agents ! agent_index) items)
      else Inl IndexError)"

definition get_multiple_agents_desired_items ::
    "agent list \<Rightarrow> item list \<Rightarrow> nat option list \<Rightarrow> error + nat list" where
  "get_multiple_agents_desired_items agents items agents_indexes =
     bind_r (desired_items_loop agents items agents_indexes []) (\<lambda>lis. Inr (py_set_list lis))"

fun bundles_loop :: "matrix \<Rightarrow> nat list \<Rightarrow> nat list \<Rightarrow> error + nat list" where
  "bundles_loop X [] lis = Inr lis"
| "bundles_loop X (agent_index # rest) lis =
     bind_r (get_bundle_indexes_from_allocation_matrix X agent_index) (\<lambda>b.
       bundles_loop X rest (lis @ b))"

definition get_multiple_agents_bundles :: "matrix \<Rightarrow> nat list \<Rightarrow> error + nat list" where
  "get_multiple_agents_bundles X agents_indexes =
     bind_r (bundles_loop X agents_indexes []) (\<lambda>lis. Inr (py_set_list lis))"

subsection \<open>\<open>find_agent\<close> and \<open>update_allocation\<close>\<close>

text \<open>
  The loop of \<open>find_agent\<close> over the owners. The result \<open>None\<close> is the value Python returns
  after the function has printed \<open>Agent not found\<close> and fallen off its end.
\<close>

fun find_agent_loop ::
    "matrix \<Rightarrow> agent list \<Rightarrow> item list \<Rightarrow> nat \<Rightarrow> nat \<Rightarrow> nat list \<Rightarrow> error + nat option" where
  "find_agent_loop X agents items current_item_index last_item_index [] = Inr None"
| "find_agent_loop X agents items current_item_index last_item_index (owner # owners) =
     (if owner < length agents then
        bind_r (get_bundle_from_allocation_matrix X items owner) (\<lambda>bundle.
          if current_item_index < length items \<and> last_item_index < length items then
            (if exchange_contribution (agents ! owner) bundle
                  (items ! current_item_index) (items ! last_item_index)
             then Inr (Some owner)
             else find_agent_loop X agents items current_item_index last_item_index owners)
          else Inl IndexError)
      else Inl IndexError)"

definition find_agent ::
    "matrix \<Rightarrow> agent list \<Rightarrow> item list \<Rightarrow> nat \<Rightarrow> nat \<Rightarrow> error + nat option" where
  "find_agent X agents items current_item_index last_item_index =
     bind_r (get_owners_list X current_item_index)
       (find_agent_loop X agents items current_item_index last_item_index)"

text \<open>
  Nodes of the exchange graph: the items by index, the sink \<open>"t"\<close> (\<open>Sink\<close>) and the source
  \<open>"s"\<close> (\<open>Source\<close>).
  A path is a list of nodes. A node that is not an item, used as an index into the numpy
  array, raises \<open>IndexError\<close>; every node of \<open>path[1:-1]\<close> is used as such an index before
  \<open>update_allocation\<close> returns, and the function raises no other kind of error, so the
  nodes are turned into indices at once.
\<close>

datatype node = Source | Sink | Item nat

fun node_indexes :: "node list \<Rightarrow> error + nat list" where
  "node_indexes [] = Inr []"
| "node_indexes (Item i # ns) = bind_r (node_indexes ns) (\<lambda>is'. Inr (i # is'))"
| "node_indexes (Source # ns) = Inl IndexError"
| "node_indexes (Sink # ns) = Inl IndexError"

text \<open>\<open>path[1:-1]\<close>\<close>

definition inner_path :: "node list \<Rightarrow> node list" where
  "inner_path path_og = butlast (tl path_og)"

text \<open>
  The \<open>while\<close> loop of \<open>update_allocation\<close>. Its argument is the remaining path in reverse,
  so that the head is the element \<open>path.pop(len(path) - 1)\<close> takes and the next one is
  \<open>path[-1]\<close>. \<open>agents_involved\<close> may receive \<open>None\<close>.
\<close>

fun transfer_loop ::
    "agent list \<Rightarrow> item list \<Rightarrow> nat \<Rightarrow> nat list \<Rightarrow> matrix \<Rightarrow> nat option list
      \<Rightarrow> error + matrix \<times> nat option list" where
  "transfer_loop agents items agent_picked [] X agents_involved = Inr (X, agents_involved)"
| "transfer_loop agents items agent_picked [last_item] X agents_involved =
     bind_r (set_entry X last_item agent_picked 1) (\<lambda>X'. Inr (X', agents_involved))"
| "transfer_loop agents items agent_picked (last_item # next_to_last_item # rest) X agents_involved =
     bind_r (find_agent X agents items next_to_last_item last_item) (\<lambda>current_agent.
       case current_agent of
         Some a \<Rightarrow>
           bind_r (set_entry X last_item a 1) (\<lambda>X1.
           bind_r (set_entry X1 next_to_last_item a 0) (\<lambda>X2.
             transfer_loop agents items agent_picked (next_to_last_item # rest) X2
               (agents_involved @ [Some a])))
       | None \<Rightarrow>
           bind_r (set_row X last_item 1) (\<lambda>X1.
           bind_r (set_row X1 next_to_last_item 0) (\<lambda>X2.
             transfer_loop agents items agent_picked (next_to_last_item # rest) X2
               (agents_involved @ [None]))))"

definition update_allocation ::
    "matrix \<Rightarrow> agent list \<Rightarrow> item list \<Rightarrow> node list \<Rightarrow> nat
      \<Rightarrow> error + matrix \<times> nat option list" where
  "update_allocation X agents items path_og agent_picked =
     bind_r (node_indexes (inner_path path_og)) (\<lambda>path.
       if path = [] then Inl IndexError
       else
         bind_r (get_entry X (last path) (length agents)) (\<lambda>slack.
         bind_r (set_entry X (last path) (length agents) (slack - 1)) (\<lambda>X0.
           transfer_loop agents items agent_picked (rev path) X0 [Some agent_picked])))"

subsection \<open>The exchange graph\<close>

text \<open>
  The networkx graph is modelled by the list of its edges in the order of insertion. All
  nodes (the items, \<open>"t"\<close>, and \<open>"s"\<close> while an agent plays) are present whenever the code
  looks at the graph, so the set of nodes is not stored.
\<close>

type_synonym graph = "(node \<times> node) list"

definition has_edge :: "graph \<Rightarrow> node \<Rightarrow> node \<Rightarrow> bool" where
  "has_edge G u v = ((u, v) \<in> set G)"

definition add_edge :: "graph \<Rightarrow> node \<Rightarrow> node \<Rightarrow> graph" where
  "add_edge G u v = (if has_edge G u v then G else G @ [(u, v)])"

text \<open>\<open>G.remove_edge\<close> raises \<open>NetworkXError\<close> when the edge is not in the graph.\<close>

definition remove_edge :: "graph \<Rightarrow> node \<Rightarrow> node \<Rightarrow> error + graph" where
  "remove_edge G u v =
     (if has_edge G u v then Inr (filter (\<lambda>e. e \<noteq> (u, v)) G) else Inl NetworkXError)"

definition remove_node :: "graph \<Rightarrow> node \<Rightarrow> graph" where
  "remove_node G n = filter (\<lambda>e. fst e \<noteq> n \<and> snd e \<noteq> n) G"

definition initialize_exchange_graph :: "nat \<Rightarrow> graph" where
  "initialize_exchange_graph N = map (\<lambda>i. (Item i, Sink)) [0..<N]"

text \<open>\<open>g not in bundle\<close>, with the equality of \<open>BaseItem\<close>.\<close>

definition item_in :: "item \<Rightarrow> item list \<Rightarrow> bool" where
  "item_in g bundle = (ident g \<in> set (map ident bundle))"

fun source_edges_loop ::
    "agent \<Rightarrow> item list \<Rightarrow> item list \<Rightarrow> nat list \<Rightarrow> graph \<Rightarrow> error + graph" where
  "source_edges_loop ag items bundle [] G = Inr G"
| "source_edges_loop ag items bundle (i # rest) G =
     (if i < length items then
        (if \<not> item_in (items ! i) bundle \<and> marginal_contribution ag bundle (items ! i) = 1
         then source_edges_loop ag items bundle rest (add_edge G Source (Item i))
         else source_edges_loop ag items bundle rest G)
      else Inl IndexError)"

definition add_agent_to_exchange_graph ::
    "matrix \<Rightarrow> graph \<Rightarrow> agent list \<Rightarrow> item list \<Rightarrow> nat \<Rightarrow> error + graph" where
  "add_agent_to_exchange_graph X G agents items agent_picked =
     bind_r (get_bundle_from_allocation_matrix X items agent_picked) (\<lambda>bundle.
       if agent_picked < length agents
       then source_edges_loop (agents ! agent_picked) items bundle
              (get_desired_items_indexes (agents ! agent_picked) items) G
       else Inl IndexError)"

text \<open>The three nested loops of \<open>update_exchange_graph\<close>, innermost first.\<close>

fun exchangeable_loop ::
    "matrix \<Rightarrow> agent list \<Rightarrow> item list \<Rightarrow> item \<Rightarrow> item \<Rightarrow> nat list \<Rightarrow> error + bool" where
  "exchangeable_loop X agents items item_1 item_2 [] = Inr False"
| "exchangeable_loop X agents items item_1 item_2 (owner # owners) =
     (if owner \<noteq> length agents then
        (if owner < length agents then
           bind_r (get_bundle_from_allocation_matrix X items owner) (\<lambda>bundle_owner.
             if exchange_contribution (agents ! owner) bundle_owner item_1 item_2
             then Inr True
             else exchangeable_loop X agents items item_1 item_2 owners)
         else Inl IndexError)
      else exchangeable_loop X agents items item_1 item_2 owners)"

fun item_2_loop ::
    "matrix \<Rightarrow> agent list \<Rightarrow> item list \<Rightarrow> nat \<Rightarrow> nat list \<Rightarrow> nat list \<Rightarrow> graph \<Rightarrow> error + graph" where
  "item_2_loop X agents items item_idx owners [] G = Inr G"
| "item_2_loop X agents items item_idx owners (item_2_idx # rest) G =
     (if item_2_idx \<noteq> item_idx then
        (if item_2_idx < length items then
           bind_r (exchangeable_loop X agents items (items ! item_idx) (items ! item_2_idx) owners)
             (\<lambda>exchangeable.
               if exchangeable
               then item_2_loop X agents items item_idx owners rest
                      (if \<not> has_edge G (Item item_idx) (Item item_2_idx)
                       then add_edge G (Item item_idx) (Item item_2_idx) else G)
               else item_2_loop X agents items item_idx owners rest
                      (if has_edge G (Item item_idx) (Item item_2_idx)
                       then filter (\<lambda>e. e \<noteq> (Item item_idx, Item item_2_idx)) G else G))
         else Inl IndexError)
      else item_2_loop X agents items item_idx owners rest G)"

fun item_1_loop ::
    "matrix \<Rightarrow> agent list \<Rightarrow> item list \<Rightarrow> nat list \<Rightarrow> nat list \<Rightarrow> graph \<Rightarrow> error + graph" where
  "item_1_loop X agents items agents_involved_desired_items [] G = Inr G"
| "item_1_loop X agents items agents_involved_desired_items (item_idx # rest) G =
     (if item_idx < length items then
        bind_r (get_owners_list X item_idx) (\<lambda>owners0.
          let owners = remove1 (length agents) owners0 in
          bind_r (get_multiple_agents_desired_items agents items (map Some owners))
            (\<lambda>owners_desired_items.
              bind_r (item_2_loop X agents items item_idx owners
                        (py_set_list (agents_involved_desired_items @ owners_desired_items)) G)
                (item_1_loop X agents items agents_involved_desired_items rest)))
      else Inl IndexError)"

text \<open>
  The first statements of \<open>update_exchange_graph\<close> and \<open>update_exchange_graph_E\<close>: the edge
  from the last item of the path to the sink goes when the slack of the item is 0.
\<close>

definition last_item_of :: "node list \<Rightarrow> error + nat" where
  "last_item_of path_og =
     (case rev (inner_path path_og) of
        [] \<Rightarrow> Inl IndexError
      | Item i # rest \<Rightarrow> Inr i
      | Source # rest \<Rightarrow> Inl IndexError
      | Sink # rest \<Rightarrow> Inl IndexError)"

definition drop_sink_edge :: "matrix \<Rightarrow> graph \<Rightarrow> nat \<Rightarrow> node list \<Rightarrow> error + graph" where
  "drop_sink_edge X G M path_og =
     bind_r (last_item_of path_og) (\<lambda>last_item.
       bind_r (get_entry X last_item M) (\<lambda>slack.
         if slack = 0 then remove_edge G (Item last_item) Sink else Inr G))"

definition update_exchange_graph ::
    "matrix \<Rightarrow> graph \<Rightarrow> agent list \<Rightarrow> item list \<Rightarrow> node list \<Rightarrow> nat option list
      \<Rightarrow> error + graph" where
  "update_exchange_graph X G agents items path_og agents_involved =
     bind_r (drop_sink_edge X G (length agents) path_og) (\<lambda>G1.
     bind_r (get_multiple_agents_desired_items agents items agents_involved)
       (\<lambda>agents_involved_desired_items.
     bind_r (get_multiple_agents_bundles X (map the agents_involved))
       (\<lambda>agents_involved_bundles.
         item_1_loop X agents items agents_involved_desired_items agents_involved_bundles G1)))"

subsection \<open>The gain function\<close>

text \<open>
  Entries of the numpy float array \<open>gain_vector\<close>: a finite number, \<open>float("inf")\<close>,
  \<open>float("-inf")\<close>, or \<open>nan\<close>. Rounding is not modelled: finite values are real numbers.
  \<open>gain_le\<close> is the comparison \<open>\<le>\<close> of floating-point numbers (false when a side is \<open>nan\<close>),
  \<open>gain_gt\<close> is \<open>>\<close>.
\<close>

datatype gain = NegInf | Fin real | PosInf | NaN

fun gain_le :: "gain \<Rightarrow> gain \<Rightarrow> bool" where
  "gain_le NaN y = False"
| "gain_le x NaN = False"
| "gain_le NegInf y = True"
| "gain_le x PosInf = True"
| "gain_le (Fin x) (Fin y) = (x \<le> y)"
| "gain_le (Fin x) NegInf = False"
| "gain_le PosInf y = False"

definition gain_gt :: "gain \<Rightarrow> gain \<Rightarrow> bool" where
  "gain_gt x y = (x \<noteq> NaN \<and> y \<noteq> NaN \<and> \<not> gain_le x y)"

text \<open>
  \<open>np.argmax\<close> over a float array: the scan replaces the running maximum by an entry \<open>x\<close>
  when \<open>x \<le> maximum\<close> is false, and stops at a \<open>nan\<close>. The first maximal entry wins.
  On an empty array it raises \<open>ValueError\<close>.
\<close>

fun argmax_loop :: "gain list \<Rightarrow> nat \<Rightarrow> gain \<Rightarrow> nat \<Rightarrow> nat" where
  "argmax_loop [] i mp max_ind = max_ind"
| "argmax_loop (x # xs) i mp max_ind =
     (if mp = NaN then max_ind
      else if \<not> gain_le x mp then argmax_loop xs (Suc i) x i
      else argmax_loop xs (Suc i) mp max_ind)"

definition np_argmax :: "gain list \<Rightarrow> error + nat" where
  "np_argmax gv = (case gv of [] \<Rightarrow> Inl ValueError | x # xs \<Rightarrow> Inr (argmax_loop xs 1 x 0))"

text \<open>
  \<open>get_gain_function\<close>. The criterion is the string the caller passes. \<open>weights[agent_picked]\<close>
  is read after the test for \<open>LorenzDominance\<close> and raises \<open>IndexError\<close> when the list is
  too short. With none of the four names the Python function returns \<open>None\<close>, which the
  assignment into the float array stores as \<open>nan\<close>. Division is the division of Python
  floats, which raises \<open>ZeroDivisionError\<close> on a zero divisor; the power is the real power,
  which is what Python computes for the positive base that a non-negative valuation gives.
\<close>

definition get_gain_function ::
    "matrix \<Rightarrow> agent list \<Rightarrow> item list \<Rightarrow> nat \<Rightarrow> string \<Rightarrow> real list \<Rightarrow> error + gain" where
  "get_gain_function X agents items agent_picked criteria weights =
     (if agent_picked < length agents then
        bind_r (get_bundle_from_allocation_matrix X items agent_picked) (\<lambda>bundle.
          let val = valuation (agents ! agent_picked) bundle in
          if criteria = ''LorenzDominance'' then Inr (Fin (- val))
          else if agent_picked < length weights then
            (let w_i = weights ! agent_picked in
             if criteria = ''WeightedLeximin'' then
               (if w_i = 0 then Inl ZeroDivisionError else Inr (Fin (- val / w_i)))
             else if criteria = ''WeightedNash'' then
               (if val = 0 then Inr PosInf else Inr (Fin ((1 + 1 / val) powr w_i)))
             else if criteria = ''WeightedHarmonic'' then
               (if val + 1 = 0 then Inl ZeroDivisionError else Inr (Fin (w_i / (val + 1))))
             else Inr NaN)
          else Inl IndexError)
      else Inl IndexError)"

subsection \<open>The engine \<open>general_yankee_swap\<close>\<close>

text \<open>
  The variables of the loop. \<open>time_steps\<close> holds clock readings and is left out;
  \<open>agents_involved_arr\<close> receives one entry in every iteration, so its length is the
  number of iterations executed.
\<close>

record state =
  X_of :: matrix
  G_of :: graph
  players :: "nat list"
  gain_vector :: "gain list"
  agents_involved_arr :: "nat list"

definition initial_state :: "agent list \<Rightarrow> item list \<Rightarrow> state" where
  "initial_state agents items =
     \<lparr>X_of = initialize_allocation_matrix items agents,
      G_of = initialize_exchange_graph (length items),
      players = [0..<length agents],
      gain_vector = replicate (length agents) (Fin 0),
      agents_involved_arr = []\<rparr>"

text \<open>\<open>players.remove(agent_picked)\<close> raises \<open>ValueError\<close> when the agent is not in the list.\<close>

definition list_remove :: "nat list \<Rightarrow> nat \<Rightarrow> error + nat list" where
  "list_remove xs x = (if x \<in> set xs then Inr (remove1 x xs) else Inl ValueError)"

text \<open>
  The body of the \<open>while\<close> loop. \<open>find_shortest_path\<close> calls the library function
  \<open>nx.shortest_path\<close> and turns every exception into \<open>False\<close>; the library function is the
  parameter \<open>sp\<close>, which returns \<open>None\<close> where the source returns \<open>False\<close>.
\<close>

definition gys_step ::
    "(graph \<Rightarrow> node list option) \<Rightarrow> agent list \<Rightarrow> item list \<Rightarrow> string \<Rightarrow> real list \<Rightarrow> state
      \<Rightarrow> error + state" where
  "gys_step sp agents items criteria weights st =
     bind_r (np_argmax (gain_vector st)) (\<lambda>agent_picked.
     bind_r (add_agent_to_exchange_graph (X_of st) (G_of st) agents items agent_picked) (\<lambda>G1.
       case sp G1 of
         None \<Rightarrow>
           bind_r (list_remove (players st) agent_picked) (\<lambda>players'.
             Inr (st\<lparr>G_of := remove_node G1 Source,
                     players := players',
                     gain_vector := (gain_vector st)[agent_picked := NegInf],
                     agents_involved_arr := agents_involved_arr st @ [0]\<rparr>))
       | Some path \<Rightarrow>
           bind_r (update_allocation (X_of st) agents items path agent_picked) (\<lambda>(X1, agents_involved).
           bind_r (update_exchange_graph X1 (remove_node G1 Source) agents items path agents_involved)
             (\<lambda>G3.
           bind_r (get_gain_function X1 agents items agent_picked criteria weights) (\<lambda>g.
             Inr (st\<lparr>X_of := X1,
                     G_of := G3,
                     gain_vector := (gain_vector st)[agent_picked := g],
                     agents_involved_arr :=
                       agents_involved_arr st @ [length agents_involved]\<rparr>))))))"

text \<open>
  The \<open>while len(players) > 0\<close> loop, with fuel: \<open>None\<close> is the result of a loop that has
  not come to its end within \<open>fuel\<close> iterations; \<open>Some (Inl e)\<close> is a run that raised \<open>e\<close>.
\<close>

fun gys_loop ::
    "(graph \<Rightarrow> node list option) \<Rightarrow> agent list \<Rightarrow> item list \<Rightarrow> string \<Rightarrow> real list \<Rightarrow> nat \<Rightarrow> state
      \<Rightarrow> (error + state) option" where
  "gys_loop sp agents items criteria weights 0 st =
     (if players st = [] then Some (Inr st) else None)"
| "gys_loop sp agents items criteria weights (Suc fuel) st =
     (if players st = [] then Some (Inr st)
      else (case gys_step sp agents items criteria weights st of
              Inl e \<Rightarrow> Some (Inl e)
            | Inr st' \<Rightarrow> gys_loop sp agents items criteria weights fuel st'))"

definition general_yankee_swap ::
    "(graph \<Rightarrow> node list option) \<Rightarrow> nat \<Rightarrow> agent list \<Rightarrow> item list \<Rightarrow> string \<Rightarrow> real list
      \<Rightarrow> (error + matrix \<times> nat list) option" where
  "general_yankee_swap sp fuel agents items criteria weights =
     map_option (map_sum id (\<lambda>st. (X_of st, agents_involved_arr st)))
       (gys_loop sp agents items criteria weights fuel (initial_state agents items))"

text \<open>The state after \<open>n\<close> iterations of the loop (or fewer, when the loop has ended).\<close>

fun gys_iterate ::
    "(graph \<Rightarrow> node list option) \<Rightarrow> agent list \<Rightarrow> item list \<Rightarrow> string \<Rightarrow> real list \<Rightarrow> nat \<Rightarrow> state
      \<Rightarrow> error + state" where
  "gys_iterate sp agents items criteria weights 0 st = Inr st"
| "gys_iterate sp agents items criteria weights (Suc n) st =
     (if players st = [] then Inr st
      else bind_r (gys_step sp agents items criteria weights st)
             (gys_iterate sp agents items criteria weights n))"

text \<open>The states the loop can be in at the start of an iteration.\<close>

inductive reachable ::
    "(graph \<Rightarrow> node list option) \<Rightarrow> agent list \<Rightarrow> item list \<Rightarrow> string \<Rightarrow> real list \<Rightarrow> state \<Rightarrow> bool"
  for sp agents items criteria weights where
  reachable_init: "reachable sp agents items criteria weights (initial_state agents items)"
| reachable_step:
    "reachable sp agents items criteria weights st \<Longrightarrow> players st \<noteq> [] \<Longrightarrow>
     gys_step sp agents items criteria weights st = Inr st' \<Longrightarrow>
     reachable sp agents items criteria weights st'"

subsection \<open>The shortest path\<close>

text \<open>
  Modelled from the spec: \<open>find_shortest_path\<close> hands the search to \<open>nx.shortest_path\<close> of the
  networkx library, whose code is not part of the repository. The specification (4.2)
  describes it as an unweighted breadth-first search over directed edges that returns the
  path as an ordered sequence of node ids, or "no path" if the sink is unreachable. The
  search below goes level by level from the source; a frontier holds the paths found so
  far in reverse, and \<open>seen\<close> the nodes already reached. Which of several shortest paths
  is returned follows the order of insertion of the edges. The general theorems on the
  engine hold for every path finder \<open>sp\<close> and ask of it only that what it returns is a path
  of the graph; this search is the instance used to run the engine on concrete inputs.
\<close>

definition successors :: "graph \<Rightarrow> node \<Rightarrow> node list" where
  "successors G u = map snd (filter (\<lambda>e. fst e = u) G)"

fun expand :: "graph \<Rightarrow> node list list \<Rightarrow> node list \<Rightarrow> node list list \<times> node list" where
  "expand G [] seen = ([], seen)"
| "expand G (p # ps) seen =
     (let ws = filter (\<lambda>w. w \<notin> set seen) (remdups (successors G (hd p)));
          r = expand G ps (seen @ ws)
      in (map (\<lambda>w. w # p) ws @ fst r, snd r))"

fun bfs :: "graph \<Rightarrow> nat \<Rightarrow> node list list \<Rightarrow> node list \<Rightarrow> node list option" where
  "bfs G 0 frontier seen = None"
| "bfs G (Suc n) frontier seen =
     (case find (\<lambda>p. hd p = Sink) frontier of
        Some p \<Rightarrow> Some (rev p)
      | None \<Rightarrow>
          (if frontier = [] then None
           else bfs G n (fst (expand G frontier seen)) (snd (expand G frontier seen))))"

definition find_shortest_path :: "graph \<Rightarrow> node list option" where
  "find_shortest_path G = bfs G (Suc (length G)) [[Source]] [Source]"

text \<open>
  What the engine needs of a path finder: a path it returns starts at the source, ends at
  the sink, and each of its steps is an edge of the graph.
\<close>

definition is_path :: "graph \<Rightarrow> node list \<Rightarrow> bool" where
  "is_path G p =
     (p \<noteq> [] \<and> hd p = Source \<and> last p = Sink \<and>
      list_all (\<lambda>e. e \<in> set G) (zip p (tl p)))"

definition sound_path_finder :: "(graph \<Rightarrow> node list option) \<Rightarrow> bool" where
  "sound_path_finder sp = (\<forall>G p. sp G = Some p \<longrightarrow> is_path G p)"

text \<open>
  What the search keeps of the paths in its frontier, which are stored in reverse: each
  starts at the source and each of its steps is an edge of the graph.
\<close>

definition walk_rev :: "graph \<Rightarrow> node list \<Rightarrow> bool" where
  "walk_rev G p =
     (p \<noteq> [] \<and> last p = Source \<and> list_all (\<lambda>e. e \<in> set G) (zip (rev p) (tl (rev p))))"

subsection \<open>The engine with the edge matrix, \<open>general_yankee_swap_E\<close>\<close>

text \<open>
  The edge matrix \<open>E\<close>: for every pair of items the list of the agents responsible for
  the edge, in the order in which they were appended.
\<close>

type_synonym edge_matrix = "nat list list list"

definition initialize_edge_matrix :: "nat \<Rightarrow> edge_matrix" where
  "initialize_edge_matrix N = replicate N (replicate N [])"

definition E_get :: "edge_matrix \<Rightarrow> nat \<Rightarrow> nat \<Rightarrow> error + nat list" where
  "E_get E a b = (if a < length E \<and> b < length (E ! a) then Inr (E ! a ! b) else Inl IndexError)"

definition E_set :: "edge_matrix \<Rightarrow> nat \<Rightarrow> nat \<Rightarrow> nat list \<Rightarrow> edge_matrix" where
  "E_set E a b l = E[a := (E ! a)[b := l]]"

text \<open>
  The \<open>for item_index in range(len(items))\<close> loop of \<open>update_allocation_E\<close>, which takes the
  agent out of every list of the row of the item it gives up.
\<close>

fun clear_agent_loop ::
    "nat \<Rightarrow> nat \<Rightarrow> nat list \<Rightarrow> graph \<Rightarrow> edge_matrix \<Rightarrow> error + graph \<times> edge_matrix" where
  "clear_agent_loop next_to_last_item current_agent [] G E = Inr (G, E)"
| "clear_agent_loop next_to_last_item current_agent (item_index # rest) G E =
     bind_r (E_get E next_to_last_item item_index) (\<lambda>l.
       if current_agent \<in> set l then
         (let l' = remove1 current_agent l;
              E' = E_set E next_to_last_item item_index l';
              G' = (if l' = [] \<and> has_edge G (Item next_to_last_item) (Item item_index)
                    then filter (\<lambda>e. e \<noteq> (Item next_to_last_item, Item item_index)) G
                    else G)
          in clear_agent_loop next_to_last_item current_agent rest G' E')
       else clear_agent_loop next_to_last_item current_agent rest G E)"

fun transfer_loop_E ::
    "item list \<Rightarrow> nat \<Rightarrow> nat list \<Rightarrow> matrix \<Rightarrow> graph \<Rightarrow> edge_matrix \<Rightarrow> nat list
      \<Rightarrow> error + matrix \<times> graph \<times> edge_matrix \<times> nat list" where
  "transfer_loop_E items agent_picked [] X G E agents_involved = Inr (X, G, E, agents_involved)"
| "transfer_loop_E items agent_picked [last_item] X G E agents_involved =
     bind_r (set_entry X last_item agent_picked 1) (\<lambda>X'. Inr (X', G, E, agents_involved))"
| "transfer_loop_E items agent_picked (last_item # next_to_last_item # rest) X G E agents_involved =
     bind_r (E_get E next_to_last_item last_item) (\<lambda>l.
       case l of
         [] \<Rightarrow> Inl IndexError
       | current_agent # others \<Rightarrow>
           bind_r (set_entry X last_item current_agent 1) (\<lambda>X1.
           bind_r (set_entry X1 next_to_last_item current_agent 0) (\<lambda>X2.
           bind_r (clear_agent_loop next_to_last_item current_agent [0..<length items] G E)
             (\<lambda>(G', E').
               transfer_loop_E items agent_picked (next_to_last_item # rest) X2 G' E'
                 (agents_involved @ [current_agent])))))"

definition update_allocation_E ::
    "matrix \<Rightarrow> graph \<Rightarrow> edge_matrix \<Rightarrow> agent list \<Rightarrow> item list \<Rightarrow> node list \<Rightarrow> nat
      \<Rightarrow> error + matrix \<times> graph \<times> edge_matrix \<times> nat list" where
  "update_allocation_E X G E agents items path_og agent_picked =
     bind_r (node_indexes (inner_path path_og)) (\<lambda>path.
       if path = [] then Inl IndexError
       else
         bind_r (get_entry X (last path) (length agents)) (\<lambda>slack.
         bind_r (set_entry X (last path) (length agents) (slack - 1)) (\<lambda>X0.
           transfer_loop_E items agent_picked (rev path) X0 G E [agent_picked])))"

text \<open>The three nested loops of \<open>update_exchange_graph_E\<close>, innermost first.\<close>

fun item2_loop_E ::
    "agent \<Rightarrow> nat \<Rightarrow> item list \<Rightarrow> item list \<Rightarrow> nat \<Rightarrow> nat list \<Rightarrow> graph \<Rightarrow> edge_matrix
      \<Rightarrow> error + graph \<times> edge_matrix" where
  "item2_loop_E ag agent_index items agent_bundle_items item1_idx [] G E = Inr (G, E)"
| "item2_loop_E ag agent_index items agent_bundle_items item1_idx (item2_idx # rest) G E =
     (if item2_idx < length items then
        (if item1_idx \<noteq> item2_idx then
           bind_r (E_get E item1_idx item2_idx) (\<lambda>l.
             if agent_index \<in> set l then
               (if \<not> exchange_contribution ag agent_bundle_items (items ! item1_idx) (items ! item2_idx)
                then
                  (let l' = remove1 agent_index l;
                       E' = E_set E item1_idx item2_idx l';
                       G' = (if l' = [] \<and> has_edge G (Item item1_idx) (Item item2_idx)
                             then filter (\<lambda>e. e \<noteq> (Item item1_idx, Item item2_idx)) G
                             else G)
                   in item2_loop_E ag agent_index items agent_bundle_items item1_idx rest G' E')
                else item2_loop_E ag agent_index items agent_bundle_items item1_idx rest G E)
             else
               (if exchange_contribution ag agent_bundle_items (items ! item1_idx) (items ! item2_idx)
                then
                  item2_loop_E ag agent_index items agent_bundle_items item1_idx rest
                    (if \<not> has_edge G (Item item1_idx) (Item item2_idx)
                     then add_edge G (Item item1_idx) (Item item2_idx) else G)
                    (E_set E item1_idx item2_idx (l @ [agent_index]))
                else item2_loop_E ag agent_index items agent_bundle_items item1_idx rest G E))
         else item2_loop_E ag agent_index items agent_bundle_items item1_idx rest G E)
      else Inl IndexError)"

fun item1_loop_E ::
    "agent \<Rightarrow> nat \<Rightarrow> item list \<Rightarrow> item list \<Rightarrow> nat list \<Rightarrow> nat list \<Rightarrow> graph \<Rightarrow> edge_matrix
      \<Rightarrow> error + graph \<times> edge_matrix" where
  "item1_loop_E ag agent_index items agent_bundle_items agent_desired_items [] G E = Inr (G, E)"
| "item1_loop_E ag agent_index items agent_bundle_items agent_desired_items (item1_idx # rest) G E =
     (if item1_idx < length items then
        bind_r (item2_loop_E ag agent_index items agent_bundle_items item1_idx
                  agent_desired_items G E)
          (\<lambda>(G', E').
            item1_loop_E ag agent_index items agent_bundle_items agent_desired_items rest G' E')
      else Inl IndexError)"

fun agents_loop_E ::
    "matrix \<Rightarrow> agent list \<Rightarrow> item list \<Rightarrow> nat list \<Rightarrow> graph \<Rightarrow> edge_matrix
      \<Rightarrow> error + graph \<times> edge_matrix" where
  "agents_loop_E X agents items [] G E = Inr (G, E)"
| "agents_loop_E X agents items (agent_index # rest) G E =
     (if agent_index < length agents then
        bind_r (get_bundle_indexes_from_allocation_matrix X agent_index) (\<lambda>agent_bundle.
        bind_r (get_bundle_from_allocation_matrix X items agent_index) (\<lambda>agent_bundle_items.
        bind_r (item1_loop_E (agents ! agent_index) agent_index items agent_bundle_items
                  (get_desired_items_indexes (agents ! agent_index) items) agent_bundle G E)
          (\<lambda>(G', E'). agents_loop_E X agents items rest G' E')))
      else Inl IndexError)"

definition update_exchange_graph_E ::
    "matrix \<Rightarrow> graph \<Rightarrow> edge_matrix \<Rightarrow> agent list \<Rightarrow> item list \<Rightarrow> node list \<Rightarrow> nat list
      \<Rightarrow> error + graph \<times> edge_matrix" where
  "update_exchange_graph_E X G E agents items path_og agents_involved =
     bind_r (drop_sink_edge X G (length agents) path_og) (\<lambda>G1.
       agents_loop_E X agents items agents_involved G1 E)"

record state_E = state +
  E_of :: edge_matrix

definition initial_state_E :: "agent list \<Rightarrow> item list \<Rightarrow> state_E" where
  "initial_state_E agents items =
     \<lparr>X_of = initialize_allocation_matrix items agents,
      G_of = initialize_exchange_graph (length items),
      players = [0..<length agents],
      gain_vector = replicate (length agents) (Fin 0),
      agents_involved_arr = [],
      E_of = initialize_edge_matrix (length items)\<rparr>"

definition gys_step_E ::
    "(graph \<Rightarrow> node list option) \<Rightarrow> agent list \<Rightarrow> item list \<Rightarrow> string \<Rightarrow> real list \<Rightarrow> state_E
      \<Rightarrow> error + state_E" where
  "gys_step_E sp agents items criteria weights st =
     bind_r (np_argmax (gain_vector st)) (\<lambda>agent_picked.
     bind_r (add_agent_to_exchange_graph (X_of st) (G_of st) agents items agent_picked) (\<lambda>G1.
       case sp G1 of
         None \<Rightarrow>
           bind_r (list_remove (players st) agent_picked) (\<lambda>players'.
             Inr (st\<lparr>G_of := remove_node G1 Source,
                     players := players',
                     gain_vector := (gain_vector st)[agent_picked := NegInf],
                     agents_involved_arr := agents_involved_arr st @ [0]\<rparr>))
       | Some path \<Rightarrow>
           bind_r (update_allocation_E (X_of st) (remove_node G1 Source) (E_of st) agents items
                     path agent_picked)
             (\<lambda>(X1, G2, E2, agents_involved).
           bind_r (update_exchange_graph_E X1 G2 E2 agents items path agents_involved)
             (\<lambda>(G3, E3).
           bind_r (get_gain_function X1 agents items agent_picked criteria weights) (\<lambda>g.
             Inr (st\<lparr>X_of := X1,
                     G_of := G3,
                     gain_vector := (gain_vector st)[agent_picked := g],
                     agents_involved_arr :=
                       agents_involved_arr st @ [length agents_involved],
                     E_of := E3\<rparr>))))))"

fun gys_loop_E ::
    "(graph \<Rightarrow> node list option) \<Rightarrow> agent list \<Rightarrow> item list \<Rightarrow> string \<Rightarrow> real list \<Rightarrow> nat
      \<Rightarrow> state_E \<Rightarrow> (error + state_E) option" where
  "gys_loop_E sp agents items criteria weights 0 st =
     (if players st = [] then Some (Inr st) else None)"
| "gys_loop_E sp agents items criteria weights (Suc fuel) st =
     (if players st = [] then Some (Inr st)
      else (case gys_step_E sp agents items criteria weights st of
              Inl e \<Rightarrow> Some (Inl e)
            | Inr st' \<Rightarrow> gys_loop_E sp agents items criteria weights fuel st'))"

definition general_yankee_swap_E ::
    "(graph \<Rightarrow> node list option) \<Rightarrow> nat \<Rightarrow> agent list \<Rightarrow> item list \<Rightarrow> string \<Rightarrow> real list
      \<Rightarrow> (error + matrix \<times> nat list) option" where
  "general_yankee_swap_E sp fuel agents items criteria weights =
     map_option (map_sum id (\<lambda>st. (X_of st, agents_involved_arr st)))
       (gys_loop_E sp agents items criteria weights fuel (initial_state_E agents items))"

section \<open>Notions used in the statements\<close>


definition slack_column :: "nat \<Rightarrow> matrix \<Rightarrow> int list" where
  "slack_column M X = map (\<lambda>row. row ! M) X"




text \<open>
  What holds of the gain vector at the start of every iteration: the agents taken out of
  \<open>players\<close> are those whose gain is \<open>-inf\<close>.
\<close>

definition select_inv :: "agent list \<Rightarrow> state \<Rightarrow> bool" where
  "select_inv agents st =
     (length (gain_vector st) = length agents \<and> distinct (players st) \<and>
      set (players st) \<subseteq> {..<length agents} \<and>
      (\<forall>j < length agents.
         if j \<in> set (players st) then gain_vector st ! j \<noteq> NegInf
         else gain_vector st ! j = NegInf))"

text \<open>
  What holds of the matrix and the graph at the start of every iteration when the
  capacities are positive: the matrix has its shape, no slack is negative, and an item
  with an edge to the sink has slack left.
\<close>

definition engine_inv :: "agent list \<Rightarrow> item list \<Rightarrow> state \<Rightarrow> bool" where
  "engine_inv agents items st =
     (matrix_shape (X_of st) (length items) (length agents) \<and>
      (\<forall>i < length items. 0 \<le> X_of st ! i ! length agents) \<and>
      (\<forall>u. (u, Sink) \<in> set (G_of st) \<longrightarrow>
           (\<exists>i < length items. u = Item i \<and> 1 \<le> X_of st ! i ! length agents)))"

text \<open>The number of players plus the total slack: what every iteration decreases by one.\<close>

definition loop_measure :: "agent list \<Rightarrow> state \<Rightarrow> nat" where
  "loop_measure agents st =
     length (players st) + nat (sum_list (slack_column (length agents) (X_of st)))"

section \<open>Sample data for the engine\<close>

text \<open>
  An agent that never agrees to an exchange is \<open>indifferent\<close> above; \<open>willing\<close> agrees to
  every exchange.
\<close>

definition willing :: agent where
  "willing = \<lparr>valuation = (\<lambda>b. real (length b)),
               marginal_contribution = (\<lambda>b g. 1),
               exchange_contribution = (\<lambda>b x y. True),
               get_desired_items_indexes = (\<lambda>items. [0..<length items])\<rparr>"

definition item_c :: item where "item_c = \<lparr>ident = 2, capacity = 1\<rparr>"

text \<open>
  Three items of capacities 2, 1 and 2 and three agents, each valuing a bundle by the
  number of its items. The agent of index 0 takes item 0 first and item 2 next, and once it
  holds both it agrees to exchange item 0 for item 1. The agent of index 1 takes item 0
  and agrees to exchange it for item 1. The agent of index 2 takes item 2 first and item 0
  next and agrees to no exchange. Each agent asks for one item at a time, so that in every
  iteration of a run at most one path leads from the source to the sink.
\<close>

definition ys_items :: "item list" where
  "ys_items = [\<lparr>ident = 0, capacity = 2\<rparr>, \<lparr>ident = 1, capacity = 1\<rparr>, \<lparr>ident = 2, capacity = 2\<rparr>]"

definition ys_agent0 :: agent where
  "ys_agent0 = \<lparr>valuation = (\<lambda>b. real (length b)),
     marginal_contribution =
       (\<lambda>b g. if (b = [] \<and> ident g = 0) \<or> (map ident b = [0] \<and> ident g = 2) then 1 else 0),
     exchange_contribution = (\<lambda>b x y. map ident b = [0, 2] \<and> ident x = 0 \<and> ident y = 1),
     get_desired_items_indexes = (\<lambda>items. [0, 1, 2])\<rparr>"

definition ys_agent1 :: agent where
  "ys_agent1 = \<lparr>valuation = (\<lambda>b. real (length b)),
     marginal_contribution = (\<lambda>b g. if b = [] \<and> ident g = 0 then 1 else 0),
     exchange_contribution = (\<lambda>b x y. map ident b = [0] \<and> ident x = 0 \<and> ident y = 1),
     get_desired_items_indexes = (\<lambda>items. [0, 1])\<rparr>"

definition ys_agent2 :: agent where
  "ys_agent2 = \<lparr>valuation = (\<lambda>b. real (length b)),
     marginal_contribution =
       (\<lambda>b g. if (b = [] \<and> ident g = 2) \<or> (map ident b = [2] \<and> ident g = 0) then 1 else 0),
     exchange_contribution = (\<lambda>b x y. False),
     get_desired_items_indexes = (\<lambda>items. [0, 2])\<rparr>"

definition ys_agents :: "agent list" where
  "ys_agents = [ys_agent0, ys_agent1, ys_agent2]"

text \<open>The state of the run on this data after five iterations of \<open>general_yankee_swap\<close>.\<close>

definition ys_state5 :: state where
  "ys_state5 =
     \<lparr>X_of = [[1, 1, 0, 0], [0, 0, 0, 1], [1, 0, 1, 0]],
      G_of = [(Item 1, Sink), (Item 0, Item 1)],
      players = [0, 2],
      gain_vector = [Fin (- 2), NegInf, Fin (- 1)],
      agents_involved_arr = [1, 1, 1, 1, 0]\<rparr>"





text \<open>
  An item of capacity 0 and an agent that takes one item, for a run that is longer than
  the sum of the capacities and the number of agents.
\<close>

definition item_z :: item where "item_z = \<lparr>ident = 0, capacity = 0\<rparr>"

definition taker :: agent where
  "taker = \<lparr>valuation = (\<lambda>b. real (length b)),
             marginal_contribution = (\<lambda>b g. if b = [] then 1 else 0),
             exchange_contribution = (\<lambda>b x y. False),
             get_desired_items_indexes = (\<lambda>items. [0])\<rparr>"

text \<open>An item of negative capacity and an item of capacity 2.\<close>

definition item_neg :: item where "item_neg = \<lparr>ident = 0, capacity = - 1\<rparr>"

definition item_two :: item where "item_two = \<lparr>ident = 0, capacity = 2\<rparr>"

section \<open>Properties of the envy metrics\<close>

subsection \<open>Reading bundles from a matrix of the right shape\<close>

lemma collect_bundle_closed:
  "i + length xs \<le> length items \<Longrightarrow>
   collect_bundle items i xs =
     Inr (map (\<lambda>k. items ! k) (filter (\<lambda>k. xs ! (k - i) = 1) [i..<i + length xs]))"
proof (induction xs arbitrary: i)
  case Nil
  then show ?case by simp
next
  case (Cons x xs)
  have step: "[i..<i + length (x # xs)] = i # [Suc i..<Suc i + length xs]"
    by (subst upt_rec) simp
  have tl: "filter (\<lambda>k. (x # xs) ! (k - i) = 1) [Suc i..<Suc i + length xs]
          = filter (\<lambda>k. xs ! (k - Suc i) = 1) [Suc i..<Suc i + length xs]"
  proof (rule filter_cong)
    fix k assume "k \<in> set [Suc i..<Suc i + length xs]"
    then have "k - i = Suc (k - Suc i)" by auto
    then show "((x # xs) ! (k - i) = 1) = (xs ! (k - Suc i) = 1)" by simp
  qed simp
  from Cons.prems have "Suc i + length xs \<le> length items" by simp
  from Cons.IH [OF this] show ?case
    using Cons.prems by (simp only: step collect_bundle.simps filter.simps tl) auto
qed

lemma get_bundle_shape:
  assumes "matrix_shape X (length items) M" and "j \<le> M"
  shows "get_bundle_from_allocation_matrix X items j = Inr (bundle_of X items j)"
proof -
  from assms have rows: "list_all (\<lambda>row. j < length row) X"
    by (auto simp: matrix_shape_def list_all_iff)
  from assms have len: "0 + length (map (\<lambda>row. row ! j) X) \<le> length items"
    by (simp add: matrix_shape_def)
  have "filter (\<lambda>k. map (\<lambda>row. row ! j) X ! (k - 0) = 1) [0..<0 + length (map (\<lambda>row. row ! j) X)]
      = filter (\<lambda>i. X ! i ! j = 1) [0..<length X]"
    by (rule filter_cong) auto
  with collect_bundle_closed [OF len] rows show ?thesis
    by (simp add: get_bundle_from_allocation_matrix_def column_def bundle_of_def)
qed

lemma envy_inner_count:
  assumes "\<And>j. j \<in> set js \<Longrightarrow> get_bundle_from_allocation_matrix X items j = Inr (bundle_of X items j)"
  shows "envy_inner False test X items ag i cur js cnt =
           Inr (cnt + length (filter (\<lambda>j. i \<noteq> j \<and> test ag cur (bundle_of X items j)) js))"
  using assms by (induction js arbitrary: cnt) auto

lemma envy_inner_agents:
  assumes "\<And>j. j \<in> set js \<Longrightarrow> get_bundle_from_allocation_matrix X items j = Inr (bundle_of X items j)"
  shows "envy_inner True test X items ag i cur js cnt =
           Inr (cnt + (if \<exists>j \<in> set js. i \<noteq> j \<and> test ag cur (bundle_of X items j) then 1 else 0))"
  using assms by (induction js arbitrary: cnt) auto

lemma envy_outer_count:
  assumes "\<And>j. j < length agents \<Longrightarrow> get_bundle_from_allocation_matrix X items j = Inr (bundle_of X items j)"
    and "set ixs \<subseteq> {..<length agents}"
  shows "envy_outer False test X agents items ixs cnt =
           Inr (cnt + sum_list (map (\<lambda>i. length (filter (pair_hit test X agents items i) [0..<length agents])) ixs))"
  using assms(2)
proof (induction ixs arbitrary: cnt)
  case Nil
  then show ?case by simp
next
  case (Cons i ixs)
  then have i: "i < length agents" and rest: "set ixs \<subseteq> {..<length agents}" by auto
  have inner: "envy_inner False test X items (agents ! i) i (valuation (agents ! i) (bundle_of X items i)) [0..<length agents] cnt
      = Inr (cnt + length (filter (pair_hit test X agents items i) [0..<length agents]))"
    by (subst envy_inner_count) (auto simp: assms(1) pair_hit_def [abs_def])
  show ?case
    by (simp add: assms(1) [OF i] inner Cons.IH [OF rest])
qed

lemma envy_outer_agents:
  assumes "\<And>j. j < length agents \<Longrightarrow> get_bundle_from_allocation_matrix X items j = Inr (bundle_of X items j)"
    and "set ixs \<subseteq> {..<length agents}"
  shows "envy_outer True test X agents items ixs cnt =
           Inr (cnt + length (filter (\<lambda>i. \<exists>j < length agents. pair_hit test X agents items i j) ixs))"
  using assms(2)
proof (induction ixs arbitrary: cnt)
  case Nil
  then show ?case by simp
next
  case (Cons i ixs)
  then have i: "i < length agents" and rest: "set ixs \<subseteq> {..<length agents}" by auto
  have inner: "envy_inner True test X items (agents ! i) i (valuation (agents ! i) (bundle_of X items i)) [0..<length agents] cnt
      = Inr (cnt + (if \<exists>j < length agents. pair_hit test X agents items i j then 1 else 0))"
    by (subst envy_inner_agents) (auto simp: assms(1) pair_hit_def)
  show ?case
    by (simp add: assms(1) [OF i] inner Cons.IH [OF rest])
qed

lemma there_is_no_item_iff:
  "there_is_no_item ag cur other ks = (\<forall>k \<in> set ks. \<not> valuation ag (pop_index k other) \<le> cur)"
  by (induction ks) auto

lemma not_for_every_item_iff:
  "not_for_every_item ag cur other ks = (\<exists>k \<in> set ks. cur < valuation ag (pop_index k other))"
  by (induction ks) auto

lemma there_is_no_item_upt:
  "there_is_no_item ag cur other [0..<n] = (\<not> (\<exists>k<n. valuation ag (pop_index k other) \<le> cur))"
  unfolding there_is_no_item_iff by (simp add: Ball_def)

lemma length_filter_le_sum_list:
  "(\<And>i. i \<in> set ixs \<Longrightarrow> P i \<Longrightarrow> 1 \<le> f i) \<Longrightarrow> length (filter P ixs) \<le> sum_list (map f ixs)"
proof (induction ixs)
  case Nil
  then show ?case by simp
next
  case (Cons a ixs)
  then have ih: "length (filter P ixs) \<le> sum_list (map f ixs)" by simp
  show ?case
  proof (cases "P a")
    case True
    then have "1 \<le> f a" using Cons.prems by simp
    with ih True show ?thesis by simp
  next
    case False
    with ih show ?thesis by simp
  qed
qed

lemma length_filter_mono:
  "(\<And>x. x \<in> set xs \<Longrightarrow> P x \<Longrightarrow> Q x) \<Longrightarrow> length (filter P xs) \<le> length (filter Q xs)"
  by (induction xs) auto

lemma sum_list_hits_mono:
  assumes "\<And>i j. P i j \<Longrightarrow> Q i j"
  shows "sum_list (map (\<lambda>i. length (filter (P i) js)) ixs) \<le> sum_list (map (\<lambda>i. length (filter (Q i) js)) ixs)"
  by (rule sum_list_mono) (auto intro: length_filter_mono assms)

lemma envy_agents_vs_count:
  assumes "matrix_shape X (length items) (length agents)"
  shows "\<exists>a c. envy_outer True test X agents items [0..<length agents] 0 = Inr a \<and>
               envy_outer False test X agents items [0..<length agents] 0 = Inr c \<and>
               a \<le> min c (length agents)"
proof -
  let ?M = "length agents"
  have B: "\<And>j. j < ?M \<Longrightarrow> get_bundle_from_allocation_matrix X items j = Inr (bundle_of X items j)"
    using get_bundle_shape [OF assms] by simp
  let ?a = "length (filter (\<lambda>i. \<exists>j < ?M. pair_hit test X agents items i j) [0..<?M])"
  let ?c = "sum_list (map (\<lambda>i. length (filter (pair_hit test X agents items i) [0..<?M])) [0..<?M])"
  have a: "envy_outer True test X agents items [0..<?M] 0 = Inr ?a"
    using envy_outer_agents [where agents = agents and ixs = "[0..<?M]" and cnt = 0 and test = test and X = X and items = items] B by (simp add: subset_iff)
  have c: "envy_outer False test X agents items [0..<?M] 0 = Inr ?c"
    using envy_outer_count [where agents = agents and ixs = "[0..<?M]" and cnt = 0 and test = test and X = X and items = items] B by (simp add: subset_iff)
  have "?a \<le> ?c"
  proof (rule length_filter_le_sum_list)
    fix i assume "\<exists>j < ?M. pair_hit test X agents items i j"
    then obtain j where "j < ?M" "pair_hit test X agents items i j" by blast
    then have "j \<in> set (filter (pair_hit test X agents items i) [0..<?M])" by simp
    then have "filter (pair_hit test X agents items i) [0..<?M] \<noteq> []" by (metis empty_iff empty_set)
    then show "1 \<le> length (filter (pair_hit test X agents items i) [0..<?M])"
      by (simp add: Suc_le_eq)
  qed
  moreover have "?a \<le> ?M"
    using length_filter_le [of _ "[0..<?M]"] by (metis length_upt minus_nat.diff_0)
  ultimately show ?thesis using a c by simp
qed

lemma envy_count_mono:
  assumes "matrix_shape X (length items) (length agents)"
    and "\<And>ag cur other. test1 ag cur other \<Longrightarrow> test2 ag cur other"
  shows "\<exists>a c. envy_outer False test1 X agents items [0..<length agents] 0 = Inr a \<and>
               envy_outer False test2 X agents items [0..<length agents] 0 = Inr c \<and> a \<le> c"
proof -
  let ?M = "length agents"
  have B: "\<And>j. j < ?M \<Longrightarrow> get_bundle_from_allocation_matrix X items j = Inr (bundle_of X items j)"
    using get_bundle_shape [OF assms(1)] by simp
  have "sum_list (map (\<lambda>i. length (filter (pair_hit test1 X agents items i) [0..<?M])) [0..<?M])
      \<le> sum_list (map (\<lambda>i. length (filter (pair_hit test2 X agents items i) [0..<?M])) [0..<?M])"
    by (rule sum_list_hits_mono) (auto simp: pair_hit_def assms(2))
  then show ?thesis
    using envy_outer_count [where agents = agents and ixs = "[0..<?M]" and cnt = 0 and X = X and items = items] B
    by (simp add: subset_iff)
qed

text \<open>
  \<open>pop_index\<close> at a position of the bundle removes exactly the item at that position: the
  bundles it yields are those obtained by taking one item out of the bundle.
\<close>

lemma pop_index_removes_one:
  "(\<exists>k < length b. P (pop_index k b)) \<longleftrightarrow> (\<exists>xs y ys. b = xs @ y # ys \<and> P (xs @ ys))"
proof
  assume "\<exists>k < length b. P (pop_index k b)"
  then obtain k where k: "k < length b" and P: "P (pop_index k b)" by blast
  from k have "b = take k b @ b ! k # drop (Suc k) b" by (rule id_take_nth_drop)
  moreover from P have "P (take k b @ drop (Suc k) b)" by (simp add: pop_index_def)
  ultimately show "\<exists>xs y ys. b = xs @ y # ys \<and> P (xs @ ys)" by blast
next
  assume "\<exists>xs y ys. b = xs @ y # ys \<and> P (xs @ ys)"
  then obtain xs y ys where b: "b = xs @ y # ys" and P: "P (xs @ ys)" by blast
  have "length xs < length b" by (simp add: b)
  moreover have "pop_index (length xs) b = xs @ ys" by (simp add: pop_index_def b)
  ultimately show "\<exists>k < length b. P (pop_index k b)" using P by auto
qed

lemma EF_1_hit_spec:
  "pair_hit EF_1_test X agents items i j = (i \<noteq> j \<and> spec_EF_1_violated X agents items i j)"
proof -
  have "(\<exists>k < length (bundle_of X items j).
            valuation (agents ! i) (pop_index k (bundle_of X items j))
              \<le> valuation (agents ! i) (bundle_of X items i)) \<longleftrightarrow>
        (\<exists>xs y ys. bundle_of X items j = xs @ y # ys \<and>
            valuation (agents ! i) (xs @ ys) \<le> valuation (agents ! i) (bundle_of X items i))"
    by (rule pop_index_removes_one
        [where P = "\<lambda>b'. valuation (agents ! i) b' \<le> valuation (agents ! i) (bundle_of X items i)"])
  then show ?thesis
    unfolding pair_hit_def EF_1_test_def spec_EF_1_violated_def there_is_no_item_upt
    by (cases "valuation (agents ! i) (bundle_of X items i)
                 < valuation (agents ! i) (bundle_of X items j)") simp_all
qed

lemma length_filter_upt_card: "length (filter P [0..<M]) = card {j. j < M \<and> P j}"
proof -
  have e: "set (filter P [0..<M]) = {j. j < M \<and> P j}" by auto
  have "card (set (filter P [0..<M])) = length (filter P [0..<M])"
    by (rule distinct_card) simp
  then show ?thesis unfolding e by simp
qed

lemma sum_hits_card:
  "sum_list (map (\<lambda>i. length (filter (P i) [0..<M])) [0..<M])
     = card {(i, j). i < M \<and> j < M \<and> P i j}"
proof -
  have "sum_list (map (\<lambda>i. length (filter (P i) [0..<M])) [0..<M])
      = (\<Sum>i \<in> {0..<M}. card {j. j < M \<and> P i j})"
    by (simp add: interv_sum_list_conv_sum_set_nat length_filter_upt_card)
  also have "\<dots> = card (SIGMA i : {0..<M}. {j. j < M \<and> P i j})"
    by (subst card_SigmaI) auto
  also have "(SIGMA i : {0..<M}. {j. j < M \<and> P i j}) = {(i, j). i < M \<and> j < M \<and> P i j}"
    by auto
  finally show ?thesis .
qed

subsection \<open>The claims on the envy metrics\<close>

text \<open>
  Claim C9. For every allocation matrix, agents and items, each per-agent envy metric is
  bounded by its pair-counting counterpart and by the number of agents:
  \<open>EF_agents \<le> min (EF_count, M)\<close>, \<open>EF_1_agents \<le> min (EF_1_count, M)\<close> and
  \<open>EF_X_agents \<le> min (EF_X_count, M)\<close> with \<open>M = len(agents)\<close>. On a matrix of the shape
  \<open>N \<times> (M + 1)\<close> all six functions return.
\<close>

theorem envy_agents_bounded:
  assumes "matrix_shape X (length items) (length agents)"
  shows "(\<exists>a c. EF_agents X agents items = Inr a \<and> EF_count X agents items = Inr c \<and>
                a \<le> min c (length agents)) \<and>
         (\<exists>a c. EF_1_agents X agents items = Inr a \<and> EF_1_count X agents items = Inr c \<and>
                a \<le> min c (length agents)) \<and>
         (\<exists>a c. EF_X_agents X agents items = Inr a \<and> EF_X_count X agents items = Inr c \<and>
                a \<le> min c (length agents))"
  unfolding EF_agents_def EF_count_def EF_1_agents_def EF_1_count_def EF_X_agents_def EF_X_count_def
  using envy_agents_vs_count [OF assms] by blast

theorem envy_agents_bounded_witness:
  "matrix_shape envy_X (length [item_a, item_b]) (length [likes_a, indifferent]) \<and>
   EF_agents envy_X [likes_a, indifferent] [item_a, item_b] = Inr 1 \<and>
   EF_count envy_X [likes_a, indifferent] [item_a, item_b] = Inr 1 \<and>
   (\<exists>a c. EF_X_agents envy_X [likes_a, indifferent] [item_a, item_b] = Inr a \<and>
          EF_X_count envy_X [likes_a, indifferent] [item_a, item_b] = Inr c \<and>
          a \<le> min c (length [likes_a, indifferent]))"
proof -
  have sh: "matrix_shape envy_X (length [item_a, item_b]) (length [likes_a, indifferent])"
    by (simp add: matrix_shape_def envy_X_def)
  have a: "EF_agents envy_X [likes_a, indifferent] [item_a, item_b] = Inr 1" by code_simp
  have c: "EF_count envy_X [likes_a, indifferent] [item_a, item_b] = Inr 1" by code_simp
  from envy_agents_bounded [OF sh] have
    "\<exists>a c. EF_X_agents envy_X [likes_a, indifferent] [item_a, item_b] = Inr a \<and>
          EF_X_count envy_X [likes_a, indifferent] [item_a, item_b] = Inr c \<and>
          a \<le> min c (length [likes_a, indifferent])"
    by (elim conjE)
  with sh a c show ?thesis by (intro conjI)
qed

text \<open>
  Claim C3, as amended. For every allocation matrix, agents and items, \<open>EF_1_count \<le> EF_count\<close>
  and \<open>EF_X_count \<le> EF_count\<close>. The order \<open>EF_X_count \<le> EF_1_count\<close> of the claim does not
  hold: the test of \<open>EF_X_count\<close> asks for some item whose removal leaves the envy, the test
  of \<open>EF_1_count\<close> asks that every removal leaves it.
\<close>

theorem envy_counts_below_EF_count:
  assumes "matrix_shape X (length items) (length agents)"
  shows "\<exists>x y e. EF_X_count X agents items = Inr x \<and> EF_1_count X agents items = Inr y \<and>
                 EF_count X agents items = Inr e \<and> y \<le> e \<and> x \<le> e"
proof -
  have 1: "\<And>ag cur other. EF_1_test ag cur other \<Longrightarrow> EF_test ag cur other"
    by (simp add: EF_1_test_def EF_test_def split: if_splits)
  have 2: "\<And>ag cur other. EF_X_test ag cur other \<Longrightarrow> EF_test ag cur other"
    by (simp add: EF_X_test_def EF_test_def split: if_splits)
  from envy_count_mono [where ?test1.0 = EF_1_test and ?test2.0 = EF_test, OF assms 1] obtain y e where
    y: "EF_1_count X agents items = Inr y" and e: "EF_count X agents items = Inr e" and ye: "y \<le> e"
    unfolding EF_1_count_def EF_count_def by blast
  from envy_count_mono [where ?test1.0 = EF_X_test and ?test2.0 = EF_test, OF assms 2] obtain x e' where
    x: "EF_X_count X agents items = Inr x" and e': "EF_count X agents items = Inr e'" and xe: "x \<le> e'"
    unfolding EF_X_count_def EF_count_def by blast
  from e e' have "e' = e" by simp
  with x y e ye xe show ?thesis by blast
qed

theorem envy_counts_below_EF_count_witness:
  "matrix_shape envy_X (length [item_a, item_b]) (length [likes_a, indifferent]) \<and>
   EF_X_count envy_X [likes_a, indifferent] [item_a, item_b] = Inr 1 \<and>
   EF_1_count envy_X [likes_a, indifferent] [item_a, item_b] = Inr 0 \<and>
   (\<exists>e. EF_count envy_X [likes_a, indifferent] [item_a, item_b] = Inr e \<and> 1 \<le> e)"
proof -
  have sh: "matrix_shape envy_X (length [item_a, item_b]) (length [likes_a, indifferent])"
    by (simp add: matrix_shape_def envy_X_def)
  have x: "EF_X_count envy_X [likes_a, indifferent] [item_a, item_b] = Inr 1" by code_simp
  have y: "EF_1_count envy_X [likes_a, indifferent] [item_a, item_b] = Inr 0" by code_simp
  from envy_counts_below_EF_count [OF sh] x y sh show ?thesis by auto
qed

text \<open>
  The claim C3 as stated fails on the sample data: the agent of column 0 holds nothing and
  envies the holder of both items; removing the second item leaves the envy (so the pair
  counts for EF-X), removing the first one ends it (so the pair does not count for EF-1).
\<close>

theorem EF_X_count_exceeds_EF_1_count:
  "EF_X_count envy_X [likes_a, indifferent] [item_a, item_b] = Inr 1 \<and>
   EF_1_count envy_X [likes_a, indifferent] [item_a, item_b] = Inr 0"
  by code_simp

text \<open>
  Claim C8. \<open>EF_1_count\<close> returns exactly the number of ordered pairs \<open>(i, j)\<close>, \<open>i \<noteq> j\<close>,
  such that agent \<open>i\<close> values the bundle of \<open>j\<close> strictly more than its own and no single
  item removable from the bundle of \<open>j\<close> brings the value of the reduced bundle down to the
  value of the own bundle or below; \<open>EF_1_agents\<close> counts the agents \<open>i\<close> for which such a
  \<open>j\<close> exists, each once.
\<close>

theorem EF_1_counts_spec:
  assumes "matrix_shape X (length items) (length agents)"
  shows "EF_1_count X agents items =
           Inr (card {(i, j). i < length agents \<and> j < length agents \<and> i \<noteq> j \<and>
                              spec_EF_1_violated X agents items i j}) \<and>
         EF_1_agents X agents items =
           Inr (card {i. i < length agents \<and>
                         (\<exists>j < length agents. i \<noteq> j \<and> spec_EF_1_violated X agents items i j)})"
proof -
  let ?M = "length agents"
  have B: "\<And>j. j < ?M \<Longrightarrow> get_bundle_from_allocation_matrix X items j = Inr (bundle_of X items j)"
    using get_bundle_shape [OF assms] by simp
  have c: "EF_1_count X agents items
      = Inr (sum_list (map (\<lambda>i. length (filter (pair_hit EF_1_test X agents items i) [0..<?M])) [0..<?M]))"
    unfolding EF_1_count_def
    using envy_outer_count [where agents = agents and ixs = "[0..<?M]" and cnt = 0 and X = X and items = items] B
    by (simp add: subset_iff)
  have a: "EF_1_agents X agents items
      = Inr (length (filter (\<lambda>i. \<exists>j < ?M. pair_hit EF_1_test X agents items i j) [0..<?M]))"
    unfolding EF_1_agents_def
    using envy_outer_agents [where agents = agents and ixs = "[0..<?M]" and cnt = 0 and X = X and items = items] B
    by (simp add: subset_iff)
  have c': "sum_list (map (\<lambda>i. length (filter (pair_hit EF_1_test X agents items i) [0..<?M])) [0..<?M])
      = card {(i, j). i < ?M \<and> j < ?M \<and> pair_hit EF_1_test X agents items i j}"
    by (rule sum_hits_card)
  have a': "length (filter (\<lambda>i. \<exists>j < ?M. pair_hit EF_1_test X agents items i j) [0..<?M])
      = card {i. i < ?M \<and> (\<exists>j < ?M. pair_hit EF_1_test X agents items i j)}"
    by (rule length_filter_upt_card)
  show ?thesis
    unfolding c a c' a' by (simp add: EF_1_hit_spec)
qed

theorem EF_1_counts_spec_witness:
  "matrix_shape envy_X (length [item_a, item_b]) (length [willing, indifferent]) \<and>
   spec_EF_1_violated envy_X [willing, indifferent] [item_a, item_b] 0 1 \<and>
   EF_1_count envy_X [willing, indifferent] [item_a, item_b] = Inr 1 \<and>
   card {(i, j). i < length [willing, indifferent] \<and> j < length [willing, indifferent] \<and> i \<noteq> j \<and>
                 spec_EF_1_violated envy_X [willing, indifferent] [item_a, item_b] i j} = 1 \<and>
   EF_1_agents envy_X [willing, indifferent] [item_a, item_b] = Inr 1 \<and>
   card {i. i < length [willing, indifferent] \<and>
            (\<exists>j < length [willing, indifferent].
               i \<noteq> j \<and> spec_EF_1_violated envy_X [willing, indifferent] [item_a, item_b] i j)} = 1 \<and>
   EF_count envy_X [likes_a, indifferent] [item_a, item_b] = Inr 1 \<and>
   EF_1_count envy_X [likes_a, indifferent] [item_a, item_b] = Inr 0 \<and>
   card {(i, j). i < length [likes_a, indifferent] \<and> j < length [likes_a, indifferent] \<and> i \<noteq> j \<and>
                 spec_EF_1_violated envy_X [likes_a, indifferent] [item_a, item_b] i j} = 0"
proof -
  have sh: "matrix_shape envy_X (length [item_a, item_b]) (length [willing, indifferent])"
    by (simp add: matrix_shape_def envy_X_def)
  have sh': "matrix_shape envy_X (length [item_a, item_b]) (length [likes_a, indifferent])"
    by (simp add: matrix_shape_def envy_X_def)
  have c: "EF_1_count envy_X [willing, indifferent] [item_a, item_b] = Inr 1" by code_simp
  have a: "EF_1_agents envy_X [willing, indifferent] [item_a, item_b] = Inr 1" by code_simp
  have e: "EF_count envy_X [likes_a, indifferent] [item_a, item_b] = Inr 1" by code_simp
  have c': "EF_1_count envy_X [likes_a, indifferent] [item_a, item_b] = Inr 0" by code_simp
  have b1: "bundle_of envy_X [item_a, item_b] 1 = [item_a, item_b]" by code_simp
  have b0: "bundle_of envy_X [item_a, item_b] 0 = []" by code_simp
  have "\<not> (\<exists>xs y ys. [item_a, item_b] = xs @ y # ys \<and> real (length (xs @ ys)) \<le> 0)"
  proof
    assume "\<exists>xs y ys. [item_a, item_b] = xs @ y # ys \<and> real (length (xs @ ys)) \<le> 0"
    then obtain xs y ys where
      d: "[item_a, item_b] = xs @ y # ys" and l: "real (length (xs @ ys)) \<le> 0"
      by blast
    from d have "length [item_a, item_b] = length (xs @ y # ys)" by (rule arg_cong)
    with l show False by simp
  qed
  then have v: "spec_EF_1_violated envy_X [willing, indifferent] [item_a, item_b] 0 1"
    unfolding spec_EF_1_violated_def b1 b0 by (simp add: willing_def)
  from EF_1_counts_spec [OF sh] c a have
    1: "card {(i, j). i < length [willing, indifferent] \<and> j < length [willing, indifferent] \<and> i \<noteq> j \<and>
                 spec_EF_1_violated envy_X [willing, indifferent] [item_a, item_b] i j} = 1" and
    2: "card {i. i < length [willing, indifferent] \<and>
            (\<exists>j < length [willing, indifferent].
               i \<noteq> j \<and> spec_EF_1_violated envy_X [willing, indifferent] [item_a, item_b] i j)} = 1"
    by simp_all
  from EF_1_counts_spec [OF sh'] c' have
    3: "card {(i, j). i < length [likes_a, indifferent] \<and> j < length [likes_a, indifferent] \<and> i \<noteq> j \<and>
                 spec_EF_1_violated envy_X [likes_a, indifferent] [item_a, item_b] i j} = 0"
    by simp
  from sh v c 1 a 2 e c' 3 show ?thesis by blast
qed

section \<open>The engine: selection of the agent\<close>

lemma bind_r_Inr_iff: "bind_r m f = Inr y \<longleftrightarrow> (\<exists>x. m = Inr x \<and> f x = Inr y)"
  by (cases m) auto

lemma gys_step_cases:
  assumes "gys_step sp agents items criteria weights st = Inr st'"
  obtains (no_path) a G1 pl where
      "np_argmax (gain_vector st) = Inr a"
      "add_agent_to_exchange_graph (X_of st) (G_of st) agents items a = Inr G1"
      "sp G1 = None"
      "list_remove (players st) a = Inr pl"
      "st' = st\<lparr>G_of := remove_node G1 Source, players := pl,
                 gain_vector := (gain_vector st)[a := NegInf],
                 agents_involved_arr := agents_involved_arr st @ [0]\<rparr>"
  | (path) a G1 p X1 inv G3 g where
      "np_argmax (gain_vector st) = Inr a"
      "add_agent_to_exchange_graph (X_of st) (G_of st) agents items a = Inr G1"
      "sp G1 = Some p"
      "update_allocation (X_of st) agents items p a = Inr (X1, inv)"
      "update_exchange_graph X1 (remove_node G1 Source) agents items p inv = Inr G3"
      "get_gain_function X1 agents items a criteria weights = Inr g"
      "st' = st\<lparr>X_of := X1, G_of := G3, gain_vector := (gain_vector st)[a := g],
                 agents_involved_arr := agents_involved_arr st @ [length inv]\<rparr>"
proof -
  from assms obtain a G1 where
    a: "np_argmax (gain_vector st) = Inr a" and
    G1: "add_agent_to_exchange_graph (X_of st) (G_of st) agents items a = Inr G1" and
    rest: "(case sp G1 of
         None \<Rightarrow>
           bind_r (list_remove (players st) a) (\<lambda>players'.
             Inr (st\<lparr>G_of := remove_node G1 Source,
                     players := players',
                     gain_vector := (gain_vector st)[a := NegInf],
                     agents_involved_arr := agents_involved_arr st @ [0]\<rparr>))
       | Some path \<Rightarrow>
           bind_r (update_allocation (X_of st) agents items path a) (\<lambda>(X1, agents_involved).
           bind_r (update_exchange_graph X1 (remove_node G1 Source) agents items path agents_involved)
             (\<lambda>G3.
           bind_r (get_gain_function X1 agents items a criteria weights) (\<lambda>g.
             Inr (st\<lparr>X_of := X1,
                     G_of := G3,
                     gain_vector := (gain_vector st)[a := g],
                     agents_involved_arr :=
                       agents_involved_arr st @ [length agents_involved]\<rparr>))))) = Inr st'"
    unfolding gys_step_def bind_r_Inr_iff by blast
  show thesis
  proof (cases "sp G1")
    case None
    with rest obtain pl where "list_remove (players st) a = Inr pl"
      "st' = st\<lparr>G_of := remove_node G1 Source, players := pl,
                 gain_vector := (gain_vector st)[a := NegInf],
                 agents_involved_arr := agents_involved_arr st @ [0]\<rparr>"
      by (auto simp: bind_r_Inr_iff)
    with a G1 None show thesis by (rule no_path)
  next
    case (Some p)
    with rest obtain X1 inv G3 g where
      "update_allocation (X_of st) agents items p a = Inr (X1, inv)"
      "update_exchange_graph X1 (remove_node G1 Source) agents items p inv = Inr G3"
      "get_gain_function X1 agents items a criteria weights = Inr g"
      "st' = st\<lparr>X_of := X1, G_of := G3, gain_vector := (gain_vector st)[a := g],
                 agents_involved_arr := agents_involved_arr st @ [length inv]\<rparr>"
      by (auto simp: bind_r_Inr_iff split: prod.splits)
    with a G1 Some show thesis by (rule path)
  qed
qed


lemma gain_le_refl: "x \<noteq> NaN \<Longrightarrow> gain_le x x"
  by (cases x) auto

lemma gain_le_trans: "gain_le x y \<Longrightarrow> gain_le y z \<Longrightarrow> gain_le x z"
  by (cases x; cases y; cases z) auto

lemma gain_le_total: "x \<noteq> NaN \<Longrightarrow> y \<noteq> NaN \<Longrightarrow> gain_le x y \<or> gain_le y x"
  by (cases x; cases y) auto

lemma gain_le_NaN: "gain_le x y \<Longrightarrow> x \<noteq> NaN \<and> y \<noteq> NaN"
  by (cases x; cases y) auto

lemma gain_le_NegInf: "gain_le x NegInf \<Longrightarrow> x = NegInf"
  by (cases x) auto

lemma gain_gt_NegInf: "gain_gt x NegInf \<longleftrightarrow> x \<noteq> NaN \<and> x \<noteq> NegInf"
  by (cases x) (auto simp: gain_gt_def)

text \<open>The scan without \<open>nan\<close>: the result is the first maximal entry.\<close>

lemma argmax_loop_first_max:
  assumes "\<forall>g \<in> set (pre @ xs). g \<noteq> NaN"
    and "mi < length pre" and "mp = pre ! mi"
    and "\<forall>k < length pre. gain_le (pre ! k) mp"
    and "\<forall>k < mi. gain_gt mp (pre ! k)"
  shows "argmax_loop xs (length pre) mp mi < length (pre @ xs) \<and>
         (\<forall>k < length (pre @ xs). gain_le ((pre @ xs) ! k) ((pre @ xs) ! argmax_loop xs (length pre) mp mi)) \<and>
         (\<forall>k < argmax_loop xs (length pre) mp mi.
             gain_gt ((pre @ xs) ! argmax_loop xs (length pre) mp mi) ((pre @ xs) ! k))"
  using assms
proof (induction xs arbitrary: pre mp mi)
  case Nil
  then show ?case by simp
next
  case (Cons x xs)
  have mp: "mp \<noteq> NaN" using Cons.prems(1,2,3) by (auto simp: nth_append)
  have x: "x \<noteq> NaN" using Cons.prems(1) by simp
  have app: "pre @ x # xs = (pre @ [x]) @ xs" by simp
  show ?case
  proof (cases "gain_le x mp")
    case True
    have 1: "\<forall>g \<in> set ((pre @ [x]) @ xs). g \<noteq> NaN" using Cons.prems(1) by simp
    have 2: "mi < length (pre @ [x])" using Cons.prems(2) by simp
    have 3: "mp = (pre @ [x]) ! mi" using Cons.prems(2,3) by (simp add: nth_append)
    have 4: "\<forall>k < length (pre @ [x]). gain_le ((pre @ [x]) ! k) mp"
      using Cons.prems(4) True by (auto simp: nth_append less_Suc_eq)
    have 5: "\<forall>k < mi. gain_gt mp ((pre @ [x]) ! k)"
      using Cons.prems(2,5) by (auto simp: nth_append)
    from Cons.IH [OF 1 2 3 4 5] True mp show ?thesis
      unfolding app by simp
  next
    case False
    have lt: "\<And>y. gain_le y mp \<Longrightarrow> gain_le y x \<and> gain_gt x y"
    proof -
      fix y assume y: "gain_le y mp"
      from False x mp have "gain_le mp x" using gain_le_total by blast
      with y have "gain_le y x" by (rule gain_le_trans)
      moreover have "\<not> gain_le x y" using False y gain_le_trans by blast
      ultimately show "gain_le y x \<and> gain_gt x y"
        using gain_le_NaN by (auto simp: gain_gt_def)
    qed
    have 1: "\<forall>g \<in> set ((pre @ [x]) @ xs). g \<noteq> NaN" using Cons.prems(1) by simp
    have 2: "length pre < length (pre @ [x])" by simp
    have 3: "x = (pre @ [x]) ! length pre" by simp
    have 4: "\<forall>k < length (pre @ [x]). gain_le ((pre @ [x]) ! k) x"
      using Cons.prems(4) lt x by (auto simp: nth_append less_Suc_eq gain_le_refl)
    have 5: "\<forall>k < length pre. gain_gt x ((pre @ [x]) ! k)"
      using Cons.prems(4) lt by (auto simp: nth_append)
    from Cons.IH [OF 1 2 3 4 5] False mp show ?thesis
      unfolding app by simp
  qed
qed

text \<open>The scan in general: the entry it returns is \<open>nan\<close> as soon as the vector holds one.\<close>

lemma argmax_loop_bound:
  "mi < i \<Longrightarrow> argmax_loop xs i mp mi < i + length xs"
proof (induction xs arbitrary: i mp mi)
  case Nil
  then show ?case by simp
next
  case (Cons x xs)
  have a: "argmax_loop xs (Suc i) x i < Suc i + length xs" by (rule Cons.IH) simp
  have b: "argmax_loop xs (Suc i) mp mi < Suc i + length xs"
    by (rule Cons.IH) (use Cons.prems in simp)
  show ?case using a b Cons.prems by simp
qed

lemma argmax_loop_NaN:
  assumes "mi < length pre" and "mp = pre ! mi" and "NaN \<in> set xs \<or> mp = NaN"
  shows "(pre @ xs) ! argmax_loop xs (length pre) mp mi = NaN"
  using assms
proof (induction xs arbitrary: pre mp mi)
  case Nil
  then show ?case by (simp add: nth_append)
next
  case (Cons x xs)
  have app: "pre @ x # xs = (pre @ [x]) @ xs" by simp
  show ?case
  proof (cases "mp = NaN")
    case True
    with Cons.prems show ?thesis by (simp add: nth_append)
  next
    case False
    show ?thesis
    proof (cases "gain_le x mp")
      case True
      then have "x \<noteq> NaN" using gain_le_NaN by blast
      with Cons.prems(3) False have n: "NaN \<in> set xs \<or> mp = NaN" by auto
      have 2: "mi < length (pre @ [x])" using Cons.prems(1) by simp
      have 3: "mp = (pre @ [x]) ! mi" using Cons.prems(1,2) by (simp add: nth_append)
      from Cons.IH [OF 2 3 n] True False show ?thesis unfolding app by simp
    next
      case nle: False
      have n: "NaN \<in> set xs \<or> x = NaN"
      proof (cases "x = NaN")
        case False
        with Cons.prems(3) \<open>mp \<noteq> NaN\<close> show ?thesis by auto
      qed simp
      have 2: "length pre < length (pre @ [x])" by simp
      have 3: "x = (pre @ [x]) ! length pre" by simp
      from Cons.IH [OF 2 3 n] nle False show ?thesis unfolding app by simp
    qed
  qed
qed

lemma np_argmax_props:
  assumes "gv \<noteq> []"
  obtains r where "np_argmax gv = Inr r" "r < length gv"
    "gv ! r = NaN \<or>
     ((\<forall>g \<in> set gv. g \<noteq> NaN) \<and> (\<forall>k < length gv. gain_le (gv ! k) (gv ! r)) \<and>
      (\<forall>k < r. gain_gt (gv ! r) (gv ! k)))"
proof -
  from assms obtain x xs where gv: "gv = x # xs" by (cases gv) auto
  let ?r = "argmax_loop xs 1 x 0"
  have r: "np_argmax gv = Inr ?r" by (simp add: gv np_argmax_def)
  have b: "?r < length gv" using argmax_loop_bound [of 0 1 xs x] by (simp add: gv)
  have "gv ! ?r = NaN \<or>
     ((\<forall>g \<in> set gv. g \<noteq> NaN) \<and> (\<forall>k < length gv. gain_le (gv ! k) (gv ! ?r)) \<and>
      (\<forall>k < ?r. gain_gt (gv ! ?r) (gv ! k)))"
  proof (cases "NaN \<in> set gv")
    case True
    then have "NaN \<in> set xs \<or> x = NaN" by (auto simp: gv)
    from argmax_loop_NaN [of 0 "[x]" x xs, OF _ _ this] show ?thesis by (simp add: gv)
  next
    case False
    then have 1: "\<forall>g \<in> set ([x] @ xs). g \<noteq> NaN" by (auto simp: gv)
    have xn: "x \<noteq> NaN" using False by (auto simp: gv)
    have 4: "\<forall>k < length [x]. gain_le ([x] ! k) x" using xn by (simp add: gain_le_refl)
    from argmax_loop_first_max [of "[x]" xs 0 x, OF 1 _ _ 4] 1 show ?thesis
      by (simp add: gv)
  qed
  with r b show thesis by (rule that)
qed


lemma get_gain_function_not_NegInf:
  "get_gain_function X agents items a criteria weights = Inr g \<Longrightarrow> g \<noteq> NegInf"
  by (auto simp: get_gain_function_def bind_r_Inr_iff Let_def split: if_splits)

lemma select_inv_init: "select_inv agents (initial_state agents items)"
  by (auto simp: select_inv_def initial_state_def)

lemma select_inv_picked:
  assumes inv: "select_inv agents st" and pl: "players st \<noteq> []"
    and a: "np_argmax (gain_vector st) = Inr a"
  shows "a \<in> set (players st) \<and> a < length agents"
proof -
  let ?gv = "gain_vector st"
  from pl obtain j where j: "j \<in> set (players st)" by (cases "players st") auto
  with inv have jM: "j < length agents" and gj: "?gv ! j \<noteq> NegInf"
    by (auto simp: select_inv_def)
  then have ne: "?gv \<noteq> []" using inv by (auto simp: select_inv_def)
  from np_argmax_props [OF ne] a have r: "a < length ?gv"
    and d: "?gv ! a = NaN \<or> (\<forall>k < length ?gv. gain_le (?gv ! k) (?gv ! a))"
    by auto
  have aM: "a < length agents" using r inv by (simp add: select_inv_def)
  have "a \<in> set (players st)"
  proof (rule ccontr)
    assume "a \<notin> set (players st)"
    with inv aM have neg: "?gv ! a = NegInf" by (auto simp: select_inv_def)
    with d have "gain_le (?gv ! j) NegInf" using jM inv by (auto simp: select_inv_def)
    with gj show False using gain_le_NegInf by blast
  qed
  with aM show ?thesis by simp
qed

lemma select_inv_step:
  assumes inv: "select_inv agents st" and pl: "players st \<noteq> []"
    and step: "gys_step sp agents items criteria weights st = Inr st'"
  shows "select_inv agents st'"
  using step
proof (cases rule: gys_step_cases)
  case (no_path a G1 pl')
  from select_inv_picked [OF inv pl no_path(1)] have a: "a \<in> set (players st)" "a < length agents"
    by auto
  from no_path(4) a have pl': "pl' = remove1 a (players st)"
    by (simp add: list_remove_def)
  have d: "distinct (players st)" using inv by (simp add: select_inv_def)
  have set': "set pl' = set (players st) - {a}" using d pl' by simp
  show ?thesis
    using inv a d set' unfolding no_path(5) select_inv_def
    by (auto simp: pl' nth_list_update)
next
  case (path a G1 p X1 inv' G3 g)
  from select_inv_picked [OF inv pl path(1)] have a: "a \<in> set (players st)" "a < length agents"
    by auto
  from path(6) have g: "g \<noteq> NegInf" by (rule get_gain_function_not_NegInf)
  show ?thesis
    using inv a g unfolding path(7) select_inv_def
    by (auto simp: nth_list_update)
qed

lemma reachable_select_inv:
  "reachable sp agents items criteria weights st \<Longrightarrow> select_inv agents st"
  by (induction rule: reachable.induct) (auto intro: select_inv_init select_inv_step)

lemma reachable_iterate:
  "reachable sp agents items criteria weights st \<Longrightarrow>
   gys_iterate sp agents items criteria weights n st = Inr st' \<Longrightarrow>
   reachable sp agents items criteria weights st'"
proof (induction n arbitrary: st)
  case 0
  then show ?case by simp
next
  case (Suc n)
  show ?case
  proof (cases "players st = []")
    case True
    with Suc.prems show ?thesis by simp
  next
    case False
    with Suc.prems(2) obtain st1 where
      s1: "gys_step sp agents items criteria weights st = Inr st1" and
      s2: "gys_iterate sp agents items criteria weights n st1 = Inr st'"
      by (auto simp: bind_r_Inr_iff)
    from Suc.prems(1) False s1 have "reachable sp agents items criteria weights st1"
      by (rule reachable_step)
    from Suc.IH [OF this s2] show ?thesis .
  qed
qed

lemma ys_state5_reached: "gys_iterate find_shortest_path ys_agents ys_items ''LorenzDominance'' [] 5
           (initial_state ys_agents ys_items) = Inr ys_state5"
  by code_simp

text \<open>
  Claim C7. At every SELECT step of \<open>general_yankee_swap\<close> the agent picked is an active agent
  whose entry of the gain vector is maximal among the active agents, with ties broken
  toward the lowest index: given that the gain of every active agent is strictly greater
  than \<open>-inf\<close>, a saturated agent is never picked while an active agent remains, although
  \<open>np.argmax\<close> runs over the whole vector.
\<close>

theorem select_picks_best_active:
  assumes "reachable sp agents items criteria weights st"
    and "players st \<noteq> []"
    and "\<forall>j \<in> set (players st). gain_gt (gain_vector st ! j) NegInf"
  shows "\<exists>a. np_argmax (gain_vector st) = Inr a \<and> a \<in> set (players st) \<and>
             (\<forall>j \<in> set (players st). gain_le (gain_vector st ! j) (gain_vector st ! a)) \<and>
             (\<forall>j \<in> set (players st). j < a \<longrightarrow> gain_gt (gain_vector st ! a) (gain_vector st ! j))"
proof -
  let ?gv = "gain_vector st"
  have inv: "select_inv agents st" using assms(1) by (rule reachable_select_inv)
  from assms(2) obtain j where j: "j \<in> set (players st)" by (cases "players st") auto
  with inv have "j < length ?gv" by (auto simp: select_inv_def)
  then have ne: "?gv \<noteq> []" by auto
  obtain a where a: "np_argmax ?gv = Inr a" and r: "a < length ?gv"
    and d: "?gv ! a = NaN \<or>
     ((\<forall>g \<in> set ?gv. g \<noteq> NaN) \<and> (\<forall>k < length ?gv. gain_le (?gv ! k) (?gv ! a)) \<and>
      (\<forall>k < a. gain_gt (?gv ! a) (?gv ! k)))"
    using np_argmax_props [OF ne] by blast
  from select_inv_picked [OF inv assms(2) a] have ap: "a \<in> set (players st)" by simp
  with assms(3) have "?gv ! a \<noteq> NaN" by (auto simp: gain_gt_NegInf)
  with d have le: "\<forall>k < length ?gv. gain_le (?gv ! k) (?gv ! a)"
    and gt: "\<forall>k < a. gain_gt (?gv ! a) (?gv ! k)" by auto
  have "\<forall>j \<in> set (players st). j < length ?gv" using inv by (auto simp: select_inv_def)
  with le gt a ap show ?thesis by auto
qed

theorem select_picks_best_active_witness:
  "reachable find_shortest_path ys_agents ys_items ''LorenzDominance'' [] ys_state5 \<and>
   players ys_state5 = [0, 2] \<and>
   gain_vector ys_state5 = [Fin (- 2), NegInf, Fin (- 1)] \<and>
   np_argmax (gain_vector ys_state5) = Inr 2 \<and>
   gain_le (gain_vector ys_state5 ! 0) (gain_vector ys_state5 ! 2)"
proof -
  have r: "reachable find_shortest_path ys_agents ys_items ''LorenzDominance'' [] ys_state5"
    using reachable_iterate [OF reachable_init ys_state5_reached] .
  have p: "players ys_state5 = [0, 2]" by (simp add: ys_state5_def)
  have g: "gain_vector ys_state5 = [Fin (- 2), NegInf, Fin (- 1)]" by (simp add: ys_state5_def)
  have h: "\<forall>j \<in> set (players ys_state5). gain_gt (gain_vector ys_state5 ! j) NegInf"
    by (simp add: p g gain_gt_def)
  have ne: "players ys_state5 \<noteq> []" by (simp add: p)
  from select_picks_best_active [OF r ne h] obtain a where
    a: "np_argmax (gain_vector ys_state5) = Inr a" and
    le: "\<forall>j \<in> set (players ys_state5). gain_le (gain_vector ys_state5 ! j) (gain_vector ys_state5 ! a)"
    by blast
  have "np_argmax (gain_vector ys_state5) = Inr 2" by (simp add: g np_argmax_def)
  with a have "a = 2" by simp
  with a le p r g show ?thesis by simp
qed

section \<open>Runs of the code on concrete inputs\<close>

text \<open>
  Claim C1 says that \<open>general_yankee_swap\<close> and \<open>general_yankee_swap_E\<close> return the same final
  matrix on the same input; the docstring of the second function says it is equivalent to
  the first. On the sample data they do not: in the sixth iteration the agent of index 2
  asks for item 0, which the agents 0 and 1 both hold and are both willing to exchange for
  item 1. \<open>find_agent\<close> takes the lowest index, agent 0; the edge matrix holds the agents
  in the order in which they became willing, agent 1 first, and \<open>update_allocation_E\<close>
  takes the head of that list. In every iteration of both runs there is at most one path
  from the source to the sink.
\<close>

theorem yankee_swap_variants_differ:
  "general_yankee_swap find_shortest_path 8 ys_agents ys_items ''LorenzDominance'' [] =
     Some (Inr ([[0, 1, 1, 0], [1, 0, 0, 0], [1, 0, 1, 0]], [1, 1, 1, 1, 0, 2, 0, 0])) \<and>
   general_yankee_swap_E find_shortest_path 8 ys_agents ys_items ''LorenzDominance'' [] =
     Some (Inr ([[1, 0, 1, 0], [0, 1, 0, 0], [1, 0, 1, 0]], [1, 1, 1, 1, 0, 2, 0, 0]))"
  by code_simp

text \<open>
  Claim C5 says that a path with an exchange nobody is willing to make aborts the run
  and leaves the matrix intact. \<open>find_agent\<close> prints a message and returns \<open>None\<close>;
  \<open>update_allocation\<close> goes on, and the two assignments indexed by \<open>None\<close> overwrite whole
  rows: the row of item 1 becomes all 1, the row of item 0 all 0 before the agent picked
  receives it. The function returns normally, with \<open>None\<close> among the agents involved.
\<close>

theorem update_allocation_agent_not_found:
  "update_allocation [[1, 0, 0], [0, 0, 1]] [indifferent, indifferent] [item_a, item_b]
     [Source, Item 0, Item 1, Sink] 1 =
   Inr ([[0, 1, 0], [1, 1, 1]], [Some 1, None])"
  by code_simp

section \<open>The row sums of the allocation matrix\<close>

lemma sum_list_update_int:
  "k < length xs \<Longrightarrow> sum_list (xs[k := v]) = sum_list xs - xs ! k + (v::int)"
proof (induction xs arbitrary: k)
  case Nil
  then show ?case by simp
next
  case (Cons x xs)
  then show ?case by (cases k) auto
qed

lemma get_entry_Inr:
  "get_entry X i j = Inr v \<longleftrightarrow> i < length X \<and> j < length (X ! i) \<and> X ! i ! j = v"
  by (auto simp: get_entry_def)

lemma set_entry_Inr:
  "set_entry X i j v = Inr X' \<longleftrightarrow>
     i < length X \<and> j < length (X ! i) \<and> X' = X[i := (X ! i)[j := v]]"
  by (auto simp: set_entry_def)










section \<open>Termination of the engine\<close>

subsection \<open>The edges to the sink\<close>

lemma add_edge_sink: "v \<noteq> Sink \<Longrightarrow> (u, Sink) \<in> set (add_edge G w v) \<longleftrightarrow> (u, Sink) \<in> set G"
  by (auto simp: add_edge_def)

lemma source_edges_loop_sink:
  "source_edges_loop ag items bundle ixs G = Inr G' \<Longrightarrow>
   (u, Sink) \<in> set G' \<longleftrightarrow> (u, Sink) \<in> set G"
proof (induction ixs arbitrary: G)
  case Nil
  then show ?case by simp
next
  case (Cons i rest)
  show ?case
  proof (cases "i < length items")
    case False
    with Cons.prems show ?thesis by simp
  next
    case i: True
    show ?thesis
    proof (cases "\<not> item_in (items ! i) bundle \<and> marginal_contribution ag bundle (items ! i) = 1")
      case True
      with i Cons.prems
      have "source_edges_loop ag items bundle rest (add_edge G Source (Item i)) = Inr G'"
        by simp
      from Cons.IH [OF this] show ?thesis by (simp add: add_edge_sink)
    next
      case False
      with i Cons.prems have "source_edges_loop ag items bundle rest G = Inr G'"
        by auto
      from Cons.IH [OF this] show ?thesis .
    qed
  qed
qed

lemma add_agent_sink:
  assumes "add_agent_to_exchange_graph X G agents items a = Inr G1"
  shows "a < length agents \<and> ((u, Sink) \<in> set G1 \<longleftrightarrow> (u, Sink) \<in> set G)"
proof -
  from assms obtain bd where
    r: "(if a < length agents
         then source_edges_loop (agents ! a) items bd
                (get_desired_items_indexes (agents ! a) items) G
         else Inl IndexError) = Inr G1"
    unfolding add_agent_to_exchange_graph_def bind_r_Inr_iff by blast
  then have a: "a < length agents" by (simp split: if_splits)
  with r have "source_edges_loop (agents ! a) items bd
                (get_desired_items_indexes (agents ! a) items) G = Inr G1" by simp
  from source_edges_loop_sink [OF this] a show ?thesis by simp
qed

lemma remove_node_sink:
  "(u, Sink) \<in> set (remove_node G Source) \<longleftrightarrow> (u, Sink) \<in> set G \<and> u \<noteq> Source"
  by (auto simp: remove_node_def)

lemma item_2_loop_sink:
  "item_2_loop X agents items i owners js G = Inr G' \<Longrightarrow>
   (u, Sink) \<in> set G' \<longleftrightarrow> (u, Sink) \<in> set G"
proof (induction js arbitrary: G)
  case Nil
  then show ?case by simp
next
  case (Cons j rest)
  have "\<exists>G0. item_2_loop X agents items i owners rest G0 = Inr G' \<and>
          ((u, Sink) \<in> set G0 \<longleftrightarrow> (u, Sink) \<in> set G)"
  proof (cases "j \<noteq> i")
    case False
    with Cons.prems show ?thesis by auto
  next
    case True
    with Cons.prems have j: "j < length items" by (cases "j < length items") simp_all
    with True Cons.prems obtain ex where
      r: "(if ex
           then item_2_loop X agents items i owners rest
                  (if \<not> has_edge G (Item i) (Item j) then add_edge G (Item i) (Item j) else G)
           else item_2_loop X agents items i owners rest
                  (if has_edge G (Item i) (Item j)
                   then filter (\<lambda>e. e \<noteq> (Item i, Item j)) G else G)) = Inr G'"
      by (simp add: bind_r_Inr_iff del: if_not_P if_P not_not) blast
    show ?thesis
    proof (cases ex)
      case True
      with r have "item_2_loop X agents items i owners rest
          (if \<not> has_edge G (Item i) (Item j) then add_edge G (Item i) (Item j) else G) = Inr G'"
        by simp
      moreover have "(u, Sink) \<in> set (if \<not> has_edge G (Item i) (Item j)
            then add_edge G (Item i) (Item j) else G) \<longleftrightarrow> (u, Sink) \<in> set G"
        by (simp add: add_edge_sink)
      ultimately show ?thesis by blast
    next
      case False
      with r have "item_2_loop X agents items i owners rest
          (if has_edge G (Item i) (Item j)
           then filter (\<lambda>e. e \<noteq> (Item i, Item j)) G else G) = Inr G'"
        by simp
      moreover have "(u, Sink) \<in> set (if has_edge G (Item i) (Item j)
           then filter (\<lambda>e. e \<noteq> (Item i, Item j)) G else G) \<longleftrightarrow> (u, Sink) \<in> set G"
        by auto
      ultimately show ?thesis by blast
    qed
  qed
  then obtain G0 where 1: "item_2_loop X agents items i owners rest G0 = Inr G'"
    and 2: "(u, Sink) \<in> set G0 \<longleftrightarrow> (u, Sink) \<in> set G" by blast
  from Cons.IH [OF 1] 2 show ?case by simp
qed

lemma item_1_loop_sink:
  "item_1_loop X agents items des ixs G = Inr G' \<Longrightarrow>
   (u, Sink) \<in> set G' \<longleftrightarrow> (u, Sink) \<in> set G"
proof (induction ixs arbitrary: G)
  case Nil
  then show ?case by simp
next
  case (Cons i rest)
  from Cons.prems obtain owners js G2 where
    1: "item_2_loop X agents items i owners js G = Inr G2" and
    2: "item_1_loop X agents items des rest G2 = Inr G'"
    by (auto simp: bind_r_Inr_iff Let_def split: if_splits)
  from Cons.IH [OF 2] item_2_loop_sink [OF 1] show ?case by simp
qed

lemma desired_items_loop_no_None:
  "desired_items_loop agents items ais lis = Inr r \<Longrightarrow> None \<notin> set ais"
proof (induction ais arbitrary: lis)
  case Nil
  then show ?case by simp
next
  case (Cons x rest)
  show ?case
  proof (cases x)
    case None
    with Cons.prems show ?thesis by simp
  next
    case (Some k)
    with Cons.prems have "desired_items_loop agents items rest
        (lis @ get_desired_items_indexes (agents ! k) items) = Inr r"
      by (simp split: if_splits)
    from Cons.IH [OF this] Some show ?thesis by simp
  qed
qed

lemma update_exchange_graph_sink:
  assumes "update_exchange_graph X G agents items p ais = Inr G3"
  shows "None \<notin> set ais \<and>
         (\<exists>l slack. last_item_of p = Inr l \<and> get_entry X l (length agents) = Inr slack \<and>
            (\<forall>u. (u, Sink) \<in> set G3 \<longleftrightarrow>
                   (u, Sink) \<in> set G \<and> \<not> (slack = 0 \<and> u = Item l)))"
proof -
  from assms obtain G1 des bs lis where
    d: "drop_sink_edge X G (length agents) p = Inr G1" and
    n: "desired_items_loop agents items ais [] = Inr lis" and
    l: "item_1_loop X agents items des bs G1 = Inr G3"
    unfolding update_exchange_graph_def get_multiple_agents_desired_items_def bind_r_Inr_iff
    by blast
  from d obtain li slack where
    li: "last_item_of p = Inr li" and sl: "get_entry X li (length agents) = Inr slack" and
    g: "(if slack = 0 then remove_edge G (Item li) Sink else Inr G) = Inr G1"
    unfolding drop_sink_edge_def bind_r_Inr_iff by blast
  have "\<forall>u. (u, Sink) \<in> set G1 \<longleftrightarrow> (u, Sink) \<in> set G \<and> \<not> (slack = 0 \<and> u = Item li)"
    using g by (auto simp: remove_edge_def split: if_splits)
  with item_1_loop_sink [OF l] li sl desired_items_loop_no_None [OF n]
  show ?thesis by simp
qed

subsection \<open>What a transfer changes in the matrix\<close>

lemma find_agent_loop_Some:
  "find_agent_loop X agents items c l owners = Inr (Some a) \<Longrightarrow> a < length agents"
proof (induction owners)
  case Nil
  then show ?case by simp
next
  case (Cons ow owners)
  show ?case
  proof (cases "ow < length agents")
    case False
    with Cons.prems show ?thesis by simp
  next
    case True
    with Cons.prems obtain b where
      r: "(if c < length items \<and> l < length items then
            (if exchange_contribution (agents ! ow) b (items ! c) (items ! l)
             then Inr (Some ow)
             else find_agent_loop X agents items c l owners)
          else Inl IndexError) = Inr (Some a)"
      by (auto simp: bind_r_Inr_iff)
    show ?thesis
    proof (cases "exchange_contribution (agents ! ow) b (items ! c) (items ! l)")
      case e: True
      with r True show ?thesis by (simp split: if_splits)
    next
      case False
      with r have "find_agent_loop X agents items c l owners = Inr (Some a)"
        by (simp split: if_splits)
      then show ?thesis by (rule Cons.IH)
    qed
  qed
qed

lemma find_agent_Some:
  "find_agent X agents items c l = Inr (Some a) \<Longrightarrow> a < length agents"
  unfolding find_agent_def bind_r_Inr_iff using find_agent_loop_Some by blast

lemma matrix_shape_update:
  "matrix_shape X N M \<Longrightarrow> i < length X \<Longrightarrow> matrix_shape (X[i := (X ! i)[j := v]]) N M"
  by (auto simp: matrix_shape_def list_all_length nth_list_update)

lemma set_entry_frame:
  assumes s: "set_entry X i j v = Inr X'" and sh: "matrix_shape X N M" and j: "j < M"
  shows "matrix_shape X' N M \<and> slack_column M X' = slack_column M X"
proof -
  from s have i: "i < length X" and X': "X' = X[i := (X ! i)[j := v]]"
    by (simp_all add: set_entry_Inr)
  from sh i have "matrix_shape X' N M"
    unfolding X' by (rule matrix_shape_update)
  moreover have "slack_column M X' = slack_column M X"
    unfolding slack_column_def X' using i j
    by (intro nth_equalityI) (auto simp: nth_list_update)
  ultimately show ?thesis by simp
qed

lemma transfer_loop_ai_mono:
  "transfer_loop agents items a rpath X ai = Inr (X', ai') \<Longrightarrow> set ai \<subseteq> set ai'"
proof (induction rpath arbitrary: X ai)
  case Nil
  then show ?case by simp
next
  case (Cons l rpath')
  show ?case
  proof (cases rpath')
    case Nil
    with Cons.prems show ?thesis by (auto simp: bind_r_Inr_iff)
  next
    case (Cons n rest)
    with Cons.prems obtain X2 ca where
      "transfer_loop agents items a (n # rest) X2 (ai @ [ca]) = Inr (X', ai')"
      by (auto simp: bind_r_Inr_iff split: option.splits)
    from Cons.IH [OF this [folded Cons]] show ?thesis by simp
  qed
qed

lemma transfer_loop_frame:
  "transfer_loop agents items a rpath X ai = Inr (X', ai') \<Longrightarrow> None \<notin> set ai' \<Longrightarrow>
   a < length agents \<Longrightarrow> matrix_shape X N (length agents) \<Longrightarrow>
   matrix_shape X' N (length agents) \<and>
   slack_column (length agents) X' = slack_column (length agents) X"
proof (induction rpath arbitrary: X ai)
  case Nil
  then show ?case by simp
next
  case (Cons l rpath')
  show ?case
  proof (cases rpath')
    case Nil
    with Cons.prems(1) have "set_entry X l a 1 = Inr X'" by (auto simp: bind_r_Inr_iff)
    from set_entry_frame [OF this Cons.prems(4) Cons.prems(3)] show ?thesis .
  next
    case rp: (Cons n rest)
    from Cons.prems(1) obtain ca where
      fa: "find_agent X agents items n l = Inr ca" and
      r: "(case ca of
         Some a' \<Rightarrow>
           bind_r (set_entry X l a' 1) (\<lambda>X1.
           bind_r (set_entry X1 n a' 0) (\<lambda>X2.
             transfer_loop agents items a (n # rest) X2 (ai @ [Some a'])))
       | None \<Rightarrow>
           bind_r (set_row X l 1) (\<lambda>X1.
           bind_r (set_row X1 n 0) (\<lambda>X2.
             transfer_loop agents items a (n # rest) X2 (ai @ [None])))) = Inr (X', ai')"
      unfolding rp by (auto simp: bind_r_Inr_iff)
    show ?thesis
    proof (cases ca)
      case None
      with r obtain X2 where
        "transfer_loop agents items a (n # rest) X2 (ai @ [None]) = Inr (X', ai')"
        by (auto simp: bind_r_Inr_iff)
      from transfer_loop_ai_mono [OF this] Cons.prems(2) show ?thesis by auto
    next
      case (Some k)
      with fa have k: "k < length agents" by (auto dest: find_agent_Some)
      from Some r obtain X1 X2 where
        s1: "set_entry X l k 1 = Inr X1" and s2: "set_entry X1 n k 0 = Inr X2" and
        t: "transfer_loop agents items a (n # rest) X2 (ai @ [Some k]) = Inr (X', ai')"
        by (auto simp: bind_r_Inr_iff)
      from set_entry_frame [OF s1 Cons.prems(4) k] have
        1: "matrix_shape X1 N (length agents)"
           "slack_column (length agents) X1 = slack_column (length agents) X" by simp_all
      from set_entry_frame [OF s2 1(1) k] have
        2: "matrix_shape X2 N (length agents)"
           "slack_column (length agents) X2 = slack_column (length agents) X1" by simp_all
      from Cons.IH [OF t [folded rp] Cons.prems(2) Cons.prems(3) 2(1)] 1(2) 2(2)
      show ?thesis by simp
    qed
  qed
qed

lemma update_allocation_frame:
  assumes u: "update_allocation X agents items p a = Inr (X1, ai)"
    and nn: "None \<notin> set ai" and a: "a < length agents"
    and sh: "matrix_shape X N (length agents)"
  shows "\<exists>path. node_indexes (inner_path p) = Inr path \<and> path \<noteq> [] \<and> last path < N \<and>
           matrix_shape X1 N (length agents) \<and>
           slack_column (length agents) X1 =
             (slack_column (length agents) X)
               [last path := X ! last path ! length agents - 1]"
proof -
  from u obtain path where np: "node_indexes (inner_path p) = Inr path" and
    r: "(if path = [] then Inl IndexError
       else
         bind_r (get_entry X (last path) (length agents)) (\<lambda>slack.
         bind_r (set_entry X (last path) (length agents) (slack - 1)) (\<lambda>X0.
           transfer_loop agents items a (rev path) X0 [Some a]))) = Inr (X1, ai)"
    unfolding update_allocation_def bind_r_Inr_iff by blast
  then have ne: "path \<noteq> []" by (auto split: if_splits)
  with r obtain slack X0 where
    g: "get_entry X (last path) (length agents) = Inr slack" and
    s: "set_entry X (last path) (length agents) (slack - 1) = Inr X0" and
    t: "transfer_loop agents items a (rev path) X0 [Some a] = Inr (X1, ai)"
    by (auto simp: bind_r_Inr_iff)
  from g have e: "last path < length X" "X ! last path ! length agents = slack"
    by (auto simp: get_entry_Inr)
  from s have X0: "X0 = X[last path := (X ! last path)[length agents := slack - 1]]"
    by (simp add: set_entry_Inr)
  from sh have len: "length X = N" and rows: "\<forall>i < N. length (X ! i) = length agents + 1"
    by (simp_all add: matrix_shape_def list_all_length)
  have sh0: "matrix_shape X0 N (length agents)"
    using sh e(1) unfolding X0 by (rule matrix_shape_update)
  have sl0: "slack_column (length agents) X0 =
      (slack_column (length agents) X)[last path := slack - 1]"
    unfolding slack_column_def X0 using e len rows
    by (intro nth_equalityI) (auto simp: nth_list_update)
  from transfer_loop_frame [OF t nn a sh0] sl0 np ne e len show ?thesis by auto
qed

subsection \<open>One iteration\<close>

lemma node_indexes_Inr: "node_indexes ns = Inr path \<Longrightarrow> ns = map Item path"
proof (induction ns arbitrary: path)
  case Nil
  then show ?case by simp
next
  case (Cons x ns)
  show ?case
  proof (cases x)
    case (Item i)
    with Cons.prems obtain r where "node_indexes ns = Inr r" "path = i # r"
      by (auto simp: bind_r_Inr_iff)
    with Cons.IH [of r] Item show ?thesis by simp
  qed (use Cons.prems in simp_all)
qed

lemma zip_tl_snoc:
  "list_all P (zip (q @ [v]) (tl (q @ [v]))) \<longleftrightarrow>
     list_all P (zip q (tl q)) \<and> (q \<noteq> [] \<longrightarrow> P (last q, v))"
proof (induction q)
  case Nil
  then show ?case by simp
next
  case (Cons x q)
  then show ?case by (cases q) auto
qed

lemma path_last_sink:
  assumes ip: "is_path G p" and np: "node_indexes (inner_path p) = Inr path" and ne: "path \<noteq> []"
  shows "(Item (last path), Sink) \<in> set G \<and> last_item_of p = Inr (last path)"
proof -
  from np have ip': "inner_path p = map Item path" by (rule node_indexes_Inr)
  with ne have bne: "butlast (tl p) \<noteq> []" by (simp add: inner_path_def)
  then have tne: "tl p \<noteq> []" by auto
  from ip have pne: "p \<noteq> []" and lp: "last p = Sink" and
    edges: "list_all (\<lambda>e. e \<in> set G) (zip p (tl p))" by (simp_all add: is_path_def)
  from tne pne lp have lt: "last (tl p) = Sink" by (simp add: last_tl)
  have tl_eq: "tl p = map Item path @ [Sink]"
    using tne lt ip' by (metis append_butlast_last_id inner_path_def)
  with pne have p_eq: "p = (hd p # map Item path) @ [Sink]" by (cases p) auto
  from edges have "list_all (\<lambda>e. e \<in> set G)
      (zip ((hd p # map Item path) @ [Sink]) (tl ((hd p # map Item path) @ [Sink])))"
    using p_eq by simp
  then have "(last (hd p # map Item path), Sink) \<in> set G"
    unfolding zip_tl_snoc by simp
  with ne have 1: "(Item (last path), Sink) \<in> set G" by (simp add: last_map)
  from ne have "rev (map Item path) = Item (last path) # rev (map Item (butlast path))"
    by (metis append_butlast_last_id list.simps(9) map_append rev.simps(2) rev_append rev_rev_ident
        append_Cons append_Nil list.simps(8) rev_map)
  then have 2: "last_item_of p = Inr (last path)"
    by (simp add: last_item_of_def ip')
  from 1 2 show ?thesis by simp
qed

lemma slack_column_nth:
  "i < length X \<Longrightarrow> slack_column M X ! i = X ! i ! M"
  by (simp add: slack_column_def)

lemma length_slack_column: "length (slack_column M X) = length X"
  by (simp add: slack_column_def)

lemma sum_list_nonneg_nth:
  "(\<forall>i < length xs. 0 \<le> xs ! i) \<Longrightarrow> 0 \<le> sum_list (xs :: int list)"
  by (rule sum_list_nonneg) (auto simp: in_set_conv_nth)

lemma step_progress:
  assumes sp: "sound_path_finder sp" and inv: "engine_inv agents items st"
    and step: "gys_step sp agents items criteria weights st = Inr st'"
  shows "engine_inv agents items st' \<and>
         Suc (loop_measure agents st') = loop_measure agents st \<and>
         length (agents_involved_arr st') = Suc (length (agents_involved_arr st)) \<and>
         (if X_of st' = X_of st \<and> players st' \<noteq> players st
          then Suc (length (players st')) = length (players st) \<and>
               set (players st') \<subseteq> set (players st)
          else players st' = players st \<and>
               sum_list (slack_column (length agents) (X_of st')) + 1 =
                 sum_list (slack_column (length agents) (X_of st)) \<and>
               list_all2 (\<le>) (slack_column (length agents) (X_of st'))
                 (slack_column (length agents) (X_of st)))"
  using step
proof (cases rule: gys_step_cases)
  case (no_path a G1 pl)
  from no_path(4) have a: "a \<in> set (players st)" and pl: "pl = remove1 a (players st)"
    by (auto simp: list_remove_def split: if_splits)
  from a have pos: "0 < length (players st)" by (cases "players st") auto
  from a pos have len: "Suc (length pl) = length (players st)"
    unfolding pl by (simp add: length_remove1)
  then have neq: "pl \<noteq> players st" by auto
  have sub: "set pl \<subseteq> set (players st)" unfolding pl by (rule set_remove1_subset)
  have "engine_inv agents items st'"
    using inv add_agent_sink [OF no_path(2)]
    unfolding engine_inv_def no_path(5) by (simp add: remove_node_sink)
  moreover have "Suc (loop_measure agents st') = loop_measure agents st"
    using len unfolding loop_measure_def no_path(5) by simp
  ultimately show ?thesis using len neq sub unfolding no_path(5) by simp
next
  case (path a G1 p X1 ai G3 g)
  let ?M = "length agents" and ?N = "length items" and ?X = "X_of st"
  from add_agent_sink [OF path(2)] have a: "a < ?M"
    and G1: "\<And>u. (u, Sink) \<in> set G1 \<longleftrightarrow> (u, Sink) \<in> set (G_of st)" by auto
  from sp path(3) have ip: "is_path G1 p" by (simp add: sound_path_finder_def)
  from inv have sh: "matrix_shape ?X ?N ?M" and
    nonneg: "\<forall>i < ?N. 0 \<le> ?X ! i ! ?M" and
    sink: "\<forall>u. (u, Sink) \<in> set (G_of st) \<longrightarrow> (\<exists>i < ?N. u = Item i \<and> 1 \<le> ?X ! i ! ?M)"
    by (simp_all add: engine_inv_def)
  from update_exchange_graph_sink [OF path(5)] obtain l slack where
    nn: "None \<notin> set ai" and li: "last_item_of p = Inr l" and
    gs: "get_entry X1 l ?M = Inr slack" and
    G3: "\<forall>u. (u, Sink) \<in> set G3 \<longleftrightarrow>
             (u, Sink) \<in> set (remove_node G1 Source) \<and> \<not> (slack = 0 \<and> u = Item l)"
    by blast
  from update_allocation_frame [OF path(4) nn a sh] obtain pth where
    np: "node_indexes (inner_path p) = Inr pth" and ne: "pth \<noteq> []" and lN: "last pth < ?N" and
    sh1: "matrix_shape X1 ?N ?M" and
    sc: "slack_column ?M X1 = (slack_column ?M ?X)[last pth := ?X ! last pth ! ?M - 1]"
    by blast
  from path_last_sink [OF ip np ne] li have
    ls: "(Item l, Sink) \<in> set G1" and l: "l = last pth" by auto
  from ls G1 sink have l1: "1 \<le> ?X ! l ! ?M" by auto
  from sh sh1 have len: "length ?X = ?N" "length X1 = ?N" by (simp_all add: matrix_shape_def)
  have X1_nth: "X1 ! i ! ?M = (if i = l then ?X ! l ! ?M - 1 else ?X ! i ! ?M)" if "i < ?N" for i
  proof -
    from that len have "X1 ! i ! ?M = slack_column ?M X1 ! i" by (simp add: slack_column_nth)
    also have "\<dots> = (if i = l then ?X ! l ! ?M - 1 else slack_column ?M ?X ! i)"
      unfolding sc l using that len by (simp add: nth_list_update length_slack_column)
    also have "\<dots> = (if i = l then ?X ! l ! ?M - 1 else ?X ! i ! ?M)"
      using that len by (simp add: slack_column_nth)
    finally show ?thesis .
  qed
  from gs have slack: "slack = X1 ! l ! ?M" by (auto simp: get_entry_Inr)
  have inv': "engine_inv agents items st'"
    unfolding engine_inv_def path(7)
  proof (simp add: sh1, intro conjI allI impI)
    fix i assume "i < ?N"
    with X1_nth [of i] nonneg l1 show "0 \<le> X1 ! i ! ?M" by auto
  next
    fix u assume "(u, Sink) \<in> set G3"
    with G3 have u: "(u, Sink) \<in> set G1" and ns: "\<not> (slack = 0 \<and> u = Item l)"
      by (auto simp: remove_node_sink)
    from u G1 sink obtain i where i: "i < ?N" "u = Item i" "1 \<le> ?X ! i ! ?M" by blast
    show "\<exists>i < ?N. u = Item i \<and> 1 \<le> X1 ! i ! ?M"
    proof (cases "i = l")
      case True
      with ns i slack have "X1 ! l ! ?M \<noteq> 0" by simp
      with X1_nth [of l] l1 lN l have "1 \<le> X1 ! l ! ?M" by simp
      with True i show ?thesis by blast
    next
      case False
      with X1_nth [of i] i show ?thesis by auto
    qed
  qed
  have sum1: "sum_list (slack_column ?M X1) + 1 = sum_list (slack_column ?M ?X)"
    unfolding sc using lN len
    by (simp add: sum_list_update_int length_slack_column slack_column_nth)
  have "0 \<le> sum_list (slack_column ?M X1)"
  proof (rule sum_list_nonneg_nth, intro allI impI)
    fix i assume "i < length (slack_column ?M X1)"
    then have i: "i < ?N" using len by (simp add: length_slack_column)
    with X1_nth [of i] nonneg l1 len show "0 \<le> slack_column ?M X1 ! i"
      by (auto simp: slack_column_nth)
  qed
  with sum1 have meas: "Suc (loop_measure agents st') = loop_measure agents st"
    unfolding loop_measure_def path(7) by simp
  have le: "list_all2 (\<le>) (slack_column ?M X1) (slack_column ?M ?X)"
    unfolding list_all2_conv_all_nth
  proof (intro conjI allI impI)
    show "length (slack_column ?M X1) = length (slack_column ?M ?X)"
      using len by (simp add: length_slack_column)
  next
    fix i assume "i < length (slack_column ?M X1)"
    then have i: "i < ?N" using len by (simp add: length_slack_column)
    with X1_nth [of i] len show "slack_column ?M X1 ! i \<le> slack_column ?M ?X ! i"
      by (auto simp: slack_column_nth)
  qed
  have neq: "X1 \<noteq> ?X"
  proof
    assume "X1 = ?X"
    with X1_nth [of l] lN l show False by simp
  qed
  from inv' meas le sum1 neq show ?thesis unfolding path(7) by simp
qed

subsection \<open>The search returns paths of the graph\<close>

lemma walk_rev_Cons:
  assumes "walk_rev G p" and "(hd p, w) \<in> set G"
  shows "walk_rev G (w # p)"
proof -
  from assms(1) have ne: "p \<noteq> []" and l: "last p = Source" and
    e: "list_all (\<lambda>e. e \<in> set G) (zip (rev p) (tl (rev p)))"
    by (simp_all add: walk_rev_def)
  have "list_all (\<lambda>e. e \<in> set G) (zip (rev p @ [w]) (tl (rev p @ [w])))"
    unfolding zip_tl_snoc using e ne assms(2) by (simp add: last_rev)
  with ne l show ?thesis by (simp add: walk_rev_def)
qed

lemma expand_walk:
  "\<forall>p \<in> set frontier. walk_rev G p \<Longrightarrow>
   \<forall>p \<in> set (fst (expand G frontier seen)). walk_rev G p"
proof (induction frontier arbitrary: seen)
  case Nil
  then show ?case by simp
next
  case (Cons p ps)
  let ?ws = "filter (\<lambda>w. w \<notin> set seen) (remdups (successors G (hd p)))"
  from Cons.prems have p: "walk_rev G p" and ps: "\<forall>p \<in> set ps. walk_rev G p" by simp_all
  have "\<forall>w \<in> set ?ws. walk_rev G (w # p)"
  proof
    fix w assume "w \<in> set ?ws"
    then have "(hd p, w) \<in> set G" by (auto simp: successors_def)
    with p show "walk_rev G (w # p)" by (rule walk_rev_Cons)
  qed
  with Cons.IH [OF ps, of "seen @ ?ws"] show ?case
    by (auto simp: Let_def)
qed

lemma bfs_walk:
  "\<forall>p \<in> set frontier. walk_rev G p \<Longrightarrow> bfs G n frontier seen = Some q \<Longrightarrow> is_path G q"
proof (induction n arbitrary: frontier seen)
  case 0
  then show ?case by simp
next
  case (Suc n)
  show ?case
  proof (cases "find (\<lambda>p. hd p = Sink) frontier")
    case None
    with Suc.prems(2) have ne: "frontier \<noteq> []" and
      r: "bfs G n (fst (expand G frontier seen)) (snd (expand G frontier seen)) = Some q"
      by (auto split: if_splits)
    from expand_walk [OF Suc.prems(1)] r show ?thesis by (rule Suc.IH)
  next
    case (Some p)
    with Suc.prems(2) have q: "q = rev p" by simp
    from Some have "p \<in> set frontier" and h: "hd p = Sink"
      by (auto simp: find_Some_iff)
    with Suc.prems(1) have "walk_rev G p" by simp
    with h show ?thesis unfolding q walk_rev_def is_path_def
      by (simp add: hd_rev last_rev)
  qed
qed

lemma find_shortest_path_sound: "sound_path_finder find_shortest_path"
  unfolding sound_path_finder_def find_shortest_path_def
proof (intro allI impI)
  fix G p assume "bfs G (Suc (length G)) [[Source]] [Source] = Some p"
  moreover have "\<forall>p \<in> set [[Source]]. walk_rev G p" by (simp add: walk_rev_def)
  ultimately show "is_path G p" by (rule bfs_walk [rotated])
qed

lemma engine_inv_init:
  assumes "list_all (\<lambda>it. 1 \<le> capacity it) items"
  shows "engine_inv agents items (initial_state agents items)"
proof -
  from assms have c: "\<forall>i < length items. 1 \<le> capacity (items ! i)"
    by (simp add: list_all_length)
  have X: "\<forall>i < length items.
      initialize_allocation_matrix items agents ! i ! length agents = capacity (items ! i)"
    by (simp add: initialize_allocation_matrix_def nth_append)
  have "matrix_shape (initialize_allocation_matrix items agents) (length items) (length agents)"
    by (simp add: matrix_shape_def initialize_allocation_matrix_def list_all_length)
  moreover have "\<forall>i < length items.
      0 \<le> initialize_allocation_matrix items agents ! i ! length agents"
    using X c by force
  moreover have "\<forall>u. (u, Sink) \<in> set (initialize_exchange_graph (length items)) \<longrightarrow>
      (\<exists>i < length items. u = Item i \<and>
         1 \<le> initialize_allocation_matrix items agents ! i ! length agents)"
    using X c by (auto simp: initialize_exchange_graph_def)
  ultimately show ?thesis by (simp add: engine_inv_def initial_state_def)
qed

lemma loop_measure_init:
  "loop_measure agents (initial_state agents items) =
     length agents + nat (sum_list (map capacity items))"
  by (simp add: loop_measure_def initial_state_def slack_column_def
      initialize_allocation_matrix_def comp_def nth_append)

lemma gys_loop_terminates:
  assumes sp: "sound_path_finder sp"
  shows "engine_inv agents items st \<Longrightarrow> loop_measure agents st \<le> fuel \<Longrightarrow>
     \<exists>res. gys_loop sp agents items criteria weights fuel st = Some res \<and>
       (\<forall>st'. res = Inr st' \<longrightarrow>
          length (agents_involved_arr st') \<le>
            length (agents_involved_arr st) + loop_measure agents st)"
proof (induction fuel arbitrary: st)
  case 0
  then have "players st = []" by (simp add: loop_measure_def)
  then show ?case by simp
next
  case (Suc fuel)
  show ?case
  proof (cases "players st = []")
    case True
    then show ?thesis by simp
  next
    case ne: False
    show ?thesis
    proof (cases "gys_step sp agents items criteria weights st")
      case (Inl e)
      with ne show ?thesis by simp
    next
      case (Inr st1)
      from step_progress [OF sp Suc.prems(1) Inr] have
        inv1: "engine_inv agents items st1" and
        m: "Suc (loop_measure agents st1) = loop_measure agents st" and
        len: "length (agents_involved_arr st1) = Suc (length (agents_involved_arr st))"
        by simp_all
      from m Suc.prems(2) have "loop_measure agents st1 \<le> fuel" by simp
      from Suc.IH [OF inv1 this] obtain res where
        r: "gys_loop sp agents items criteria weights fuel st1 = Some res" and
        b: "\<forall>st'. res = Inr st' \<longrightarrow>
              length (agents_involved_arr st') \<le>
                length (agents_involved_arr st1) + loop_measure agents st1"
        by blast
      from r ne Inr have "gys_loop sp agents items criteria weights (Suc fuel) st = Some res"
        by simp
      moreover from b m len have "\<forall>st'. res = Inr st' \<longrightarrow>
          length (agents_involved_arr st') \<le>
            length (agents_involved_arr st) + loop_measure agents st"
        by auto
      ultimately show ?thesis by blast
    qed
  qed
qed

lemma reachable_engine_inv:
  assumes sp: "sound_path_finder sp" and c: "list_all (\<lambda>it. 1 \<le> capacity it) items"
    and r: "reachable sp agents items criteria weights st"
  shows "engine_inv agents items st"
  using r
proof induction
  case reachable_init
  from c show ?case by (rule engine_inv_init)
next
  case (reachable_step st st')
  from step_progress [OF sp reachable_step.IH reachable_step.hyps(3)] show ?case by simp
qed

text \<open>
  Claim C6, as amended. When every item has capacity at least 1 and the shortest-path
  routine returns only paths of the graph, a run of \<open>general_yankee_swap\<close> over \<open>M\<close> agents
  and items of total capacity \<open>C\<close> ends within \<open>C + M\<close> iterations of the loop, normally
  or by raising an error, and a run that returns has made at most \<open>C + M\<close> iterations
  (the list \<open>agents_involved_arr\<close> has one entry per iteration). Every iteration that the
  loop completes from a state it can reach either leaves the matrix as it is and takes
  one agent out of \<open>players\<close>, or keeps \<open>players\<close> and lowers the total of the slack
  column by exactly one, no slack entry going up; no agent ever comes back into \<open>players\<close>.
\<close>

theorem yankee_swap_terminates:
  assumes sp: "sound_path_finder sp" and c: "list_all (\<lambda>it. 1 \<le> capacity it) items"
  shows
    "(\<exists>res. general_yankee_swap sp (nat (sum_list (map capacity items)) + length agents)
              agents items criteria weights = Some res \<and>
            (\<forall>X arr. res = Inr (X, arr) \<longrightarrow>
               length arr \<le> nat (sum_list (map capacity items)) + length agents)) \<and>
     (reachable sp agents items criteria weights st \<and>
      gys_step sp agents items criteria weights st = Inr st' \<longrightarrow>
        length (agents_involved_arr st') = Suc (length (agents_involved_arr st)) \<and>
        set (players st') \<subseteq> set (players st) \<and>
        (X_of st' = X_of st \<and> Suc (length (players st')) = length (players st) \<or>
         players st' = players st \<and>
         sum_list (slack_column (length agents) (X_of st')) + 1 =
           sum_list (slack_column (length agents) (X_of st)) \<and>
         list_all2 (\<le>) (slack_column (length agents) (X_of st'))
           (slack_column (length agents) (X_of st))))"
proof (intro conjI impI)
  let ?fuel = "nat (sum_list (map capacity items)) + length agents"
  have m: "loop_measure agents (initial_state agents items) \<le> ?fuel"
    by (simp add: loop_measure_init)
  from gys_loop_terminates [OF sp engine_inv_init [OF c] m, of criteria weights]
  obtain res0 where
    r: "gys_loop sp agents items criteria weights ?fuel (initial_state agents items) = Some res0"
    and b: "\<forall>st'. res0 = Inr st' \<longrightarrow>
        length (agents_involved_arr st') \<le>
          length (agents_involved_arr (initial_state agents items)) +
          loop_measure agents (initial_state agents items)"
    by blast
  let ?res = "map_sum id (\<lambda>st. (X_of st, agents_involved_arr st)) res0"
  from r have "general_yankee_swap sp ?fuel agents items criteria weights = Some ?res"
    by (simp add: general_yankee_swap_def)
  moreover have "\<forall>X arr. ?res = Inr (X, arr) \<longrightarrow> length arr \<le> ?fuel"
  proof (intro allI impI)
    fix X arr assume a: "?res = Inr (X, arr)"
    then obtain st1 where s: "res0 = Inr st1" and arr: "arr = agents_involved_arr st1"
      by (cases res0) auto
    from b s have "length (agents_involved_arr st1) \<le>
        length (agents_involved_arr (initial_state agents items)) +
        loop_measure agents (initial_state agents items)" by simp
    moreover have "agents_involved_arr (initial_state agents items) = []"
      by (simp add: initial_state_def)
    ultimately show "length arr \<le> ?fuel"
      unfolding arr by (simp add: loop_measure_init)
  qed
  ultimately show "\<exists>res. general_yankee_swap sp ?fuel agents items criteria weights = Some res \<and>
            (\<forall>X arr. res = Inr (X, arr) \<longrightarrow> length arr \<le> ?fuel)"
    by blast
next
  assume a: "reachable sp agents items criteria weights st \<and>
      gys_step sp agents items criteria weights st = Inr st'"
  then have inv: "engine_inv agents items st" using reachable_engine_inv [OF sp c] by blast
  from a have step: "gys_step sp agents items criteria weights st = Inr st'" by simp
  note p = step_progress [OF sp inv step]
  from p show "length (agents_involved_arr st') = Suc (length (agents_involved_arr st))"
    by simp
  from p show "set (players st') \<subseteq> set (players st)"
    by (cases "X_of st' = X_of st \<and> players st' \<noteq> players st") simp_all
  from p show "X_of st' = X_of st \<and> Suc (length (players st')) = length (players st) \<or>
         players st' = players st \<and>
         sum_list (slack_column (length agents) (X_of st')) + 1 =
           sum_list (slack_column (length agents) (X_of st)) \<and>
         list_all2 (\<le>) (slack_column (length agents) (X_of st'))
           (slack_column (length agents) (X_of st))"
    by (cases "X_of st' = X_of st \<and> players st' \<noteq> players st") simp_all
qed

theorem yankee_swap_terminates_witness:
  "sound_path_finder find_shortest_path \<and>
   list_all (\<lambda>it. 1 \<le> capacity it) ys_items \<and>
   reachable find_shortest_path ys_agents ys_items ''LorenzDominance'' [] ys_state5 \<and>
   (\<exists>res. general_yankee_swap find_shortest_path
             (nat (sum_list (map capacity ys_items)) + length ys_agents)
             ys_agents ys_items ''LorenzDominance'' [] = Some res \<and>
          (\<forall>X arr. res = Inr (X, arr) \<longrightarrow>
             length arr \<le> nat (sum_list (map capacity ys_items)) + length ys_agents)) \<and>
   (\<exists>st'. gys_step find_shortest_path ys_agents ys_items ''LorenzDominance'' [] ys_state5 = Inr st' \<and>
      players st' = players ys_state5 \<and>
      sum_list (slack_column (length ys_agents) (X_of st')) + 1 =
        sum_list (slack_column (length ys_agents) (X_of ys_state5)))"
proof -
  have c: "list_all (\<lambda>it. 1 \<le> capacity it) ys_items" by code_simp
  have r: "reachable find_shortest_path ys_agents ys_items ''LorenzDominance'' [] ys_state5"
    using reachable_iterate [OF reachable_init ys_state5_reached] .
  have "\<not> isl (gys_step find_shortest_path ys_agents ys_items ''LorenzDominance'' [] ys_state5)"
    by code_simp
  then obtain st' where
    st: "gys_step find_shortest_path ys_agents ys_items ''LorenzDominance'' [] ys_state5 = Inr st'"
    by (cases "gys_step find_shortest_path ys_agents ys_items ''LorenzDominance'' [] ys_state5") auto
  have "X_of ys_state5 \<noteq>
      X_of (projr (gys_step find_shortest_path ys_agents ys_items ''LorenzDominance'' [] ys_state5))"
    by code_simp
  with st have neq: "X_of st' \<noteq> X_of ys_state5" by auto
  note inst = yankee_swap_terminates [OF find_shortest_path_sound c,
      of ys_agents "''LorenzDominance''" "[]" ys_state5 st']
  from inst r st neq have
    "players st' = players ys_state5 \<and>
      sum_list (slack_column (length ys_agents) (X_of st')) + 1 =
        sum_list (slack_column (length ys_agents) (X_of ys_state5))"
    by blast
  with inst find_shortest_path_sound c r st show ?thesis by blast
qed

text \<open>
  With an item of capacity 0 the bound does not hold: \<open>initialize_exchange_graph\<close> gives
  every item an edge to the sink whatever its capacity, the agent takes the item, the
  slack goes to -1, and the run makes 2 iterations where \<open>C + M = 1\<close>.
\<close>

theorem yankee_swap_exceeds_bound:
  "general_yankee_swap find_shortest_path 2 [taker] [item_z] ''LorenzDominance'' [] =
     Some (Inr ([[1, - 1]], [1, 0])) \<and>
   general_yankee_swap find_shortest_path 1 [taker] [item_z] ''LorenzDominance'' [] = None \<and>
   nat (sum_list (map capacity [item_z])) + length [taker] = 1"
  by code_simp

section \<open>What \<open>update_allocation\<close> leaves unchanged\<close>

text \<open>
  When every exchange on the path has found a willing owner (no \<open>None\<close> among the agents
  involved), the transfer is the one the path describes: the rows of the items outside
  the path are unchanged, the slack column changes only in the row of the last item,
  where it goes down by one, and the columns of the agents not involved are unchanged.
\<close>

lemma set_entry_rows_columns:
  assumes "set_entry X i j v = Inr X'"
  shows "length X' = length X \<and> (\<forall>r. r \<noteq> i \<longrightarrow> X' ! r = X ! r) \<and>
         (\<forall>r c. c \<noteq> j \<longrightarrow> X' ! r ! c = X ! r ! c)"
proof -
  from assms have i: "i < length X" and X': "X' = X[i := (X ! i)[j := v]]"
    by (simp_all add: set_entry_Inr)
  have "X' ! r ! c = X ! r ! c" if "c \<noteq> j" for r c
    using that i unfolding X' by (cases "r = i") simp_all
  then show ?thesis unfolding X' by simp
qed

lemma transfer_loop_rows_columns:
  "transfer_loop agents items a rpath X ai = Inr (X', ai') \<Longrightarrow> None \<notin> set ai' \<Longrightarrow>
   length X' = length X \<and> (\<forall>r. r \<notin> set rpath \<longrightarrow> X' ! r = X ! r) \<and>
   (\<forall>r c. Some c \<notin> set ai' \<and> c \<noteq> a \<longrightarrow> X' ! r ! c = X ! r ! c)"
proof (induction rpath arbitrary: X ai)
  case Nil
  then show ?case by simp
next
  case (Cons l rpath')
  show ?case
  proof (cases rpath')
    case Nil
    with Cons.prems(1) have "set_entry X l a 1 = Inr X'" by (auto simp: bind_r_Inr_iff)
    from set_entry_rows_columns [OF this] show ?thesis by simp
  next
    case rp: (Cons n rest)
    from Cons.prems(1) obtain ca where
      r: "(case ca of
         Some a' \<Rightarrow>
           bind_r (set_entry X l a' 1) (\<lambda>X1.
           bind_r (set_entry X1 n a' 0) (\<lambda>X2.
             transfer_loop agents items a (n # rest) X2 (ai @ [Some a'])))
       | None \<Rightarrow>
           bind_r (set_row X l 1) (\<lambda>X1.
           bind_r (set_row X1 n 0) (\<lambda>X2.
             transfer_loop agents items a (n # rest) X2 (ai @ [None])))) = Inr (X', ai')"
      unfolding rp by (auto simp: bind_r_Inr_iff)
    show ?thesis
    proof (cases ca)
      case None
      with r obtain X2 where
        "transfer_loop agents items a (n # rest) X2 (ai @ [None]) = Inr (X', ai')"
        by (auto simp: bind_r_Inr_iff)
      from transfer_loop_ai_mono [OF this] Cons.prems(2) show ?thesis by auto
    next
      case (Some k)
      with r obtain X1 X2 where
        s1: "set_entry X l k 1 = Inr X1" and s2: "set_entry X1 n k 0 = Inr X2" and
        t: "transfer_loop agents items a (n # rest) X2 (ai @ [Some k]) = Inr (X', ai')"
        by (auto simp: bind_r_Inr_iff)
      from transfer_loop_ai_mono [OF t] have k: "Some k \<in> set ai'" by auto
      note 1 = set_entry_rows_columns [OF s1] and 2 = set_entry_rows_columns [OF s2]
        and 3 = Cons.IH [OF t [folded rp] Cons.prems(2)]
      have "length X' = length X" using 1 2 3 by simp
      moreover have "\<forall>r. r \<notin> set (l # rpath') \<longrightarrow> X' ! r = X ! r"
        using 1 2 3 unfolding rp by auto
      moreover have "\<forall>r c. Some c \<notin> set ai' \<and> c \<noteq> a \<longrightarrow> X' ! r ! c = X ! r ! c"
      proof (intro allI impI)
        fix r c assume c: "Some c \<notin> set ai' \<and> c \<noteq> a"
        with k have "c \<noteq> k" by auto
        with 1 2 have "X2 ! r ! c = X ! r ! c" by simp
        with 3 c show "X' ! r ! c = X ! r ! c" by simp
      qed
      ultimately show ?thesis by simp
    qed
  qed
qed

lemma update_allocation_rows_columns:
  assumes u: "update_allocation X agents items p a = Inr (X1, ai)"
    and nn: "None \<notin> set ai" and a: "a < length agents"
    and sh: "matrix_shape X N (length agents)"
  shows "\<exists>path. node_indexes (inner_path p) = Inr path \<and> path \<noteq> [] \<and>
           matrix_shape X1 N (length agents) \<and>
           (\<forall>r. r \<notin> set path \<longrightarrow> X1 ! r = X ! r) \<and>
           (\<forall>r < N. X1 ! r ! length agents =
               (if r = last path then X ! r ! length agents - 1 else X ! r ! length agents)) \<and>
           (\<forall>r c. Some c \<notin> set ai \<and> c \<noteq> length agents \<longrightarrow> X1 ! r ! c = X ! r ! c)"
proof -
  from update_allocation_frame [OF u nn a sh] obtain path where
    np: "node_indexes (inner_path p) = Inr path" and ne: "path \<noteq> []" and lN: "last path < N" and
    sh1: "matrix_shape X1 N (length agents)" and
    sc: "slack_column (length agents) X1 =
           (slack_column (length agents) X)[last path := X ! last path ! length agents - 1]"
    by blast
  from u np ne obtain slack X0 where
    s: "set_entry X (last path) (length agents) (slack - 1) = Inr X0" and
    t: "transfer_loop agents items a (rev path) X0 [Some a] = Inr (X1, ai)"
    by (auto simp: update_allocation_def bind_r_Inr_iff)
  note 0 = set_entry_rows_columns [OF s] and 1 = transfer_loop_rows_columns [OF t nn]
  from transfer_loop_ai_mono [OF t] have ain: "Some a \<in> set ai" by auto
  from ne have lin: "last path \<in> set path" by simp
  have rows: "\<forall>r. r \<notin> set path \<longrightarrow> X1 ! r = X ! r"
  proof (intro allI impI)
    fix r assume r: "r \<notin> set path"
    with lin have "r \<noteq> last path" by auto
    with 0 have "X0 ! r = X ! r" by simp
    with 1 r show "X1 ! r = X ! r" by simp
  qed
  have cols: "\<forall>r c. Some c \<notin> set ai \<and> c \<noteq> length agents \<longrightarrow> X1 ! r ! c = X ! r ! c"
  proof (intro allI impI)
    fix r c assume c: "Some c \<notin> set ai \<and> c \<noteq> length agents"
    with ain have "c \<noteq> a" by auto
    with 1 c have "X1 ! r ! c = X0 ! r ! c" by simp
    with 0 c show "X1 ! r ! c = X ! r ! c" by simp
  qed
  from sh sh1 have len: "length X = N" "length X1 = N" by (simp_all add: matrix_shape_def)
  have slack: "\<forall>r < N. X1 ! r ! length agents =
      (if r = last path then X ! r ! length agents - 1 else X ! r ! length agents)"
  proof (intro allI impI)
    fix r assume r: "r < N"
    with len have "X1 ! r ! length agents = slack_column (length agents) X1 ! r"
      by (simp add: slack_column_nth)
    also have "\<dots> = (if r = last path then X ! r ! length agents - 1
        else slack_column (length agents) X ! r)"
      unfolding sc using r len by (simp add: nth_list_update length_slack_column)
    also have "\<dots> = (if r = last path then X ! r ! length agents - 1 else X ! r ! length agents)"
      using r len by (simp add: slack_column_nth)
    finally show "X1 ! r ! length agents =
      (if r = last path then X ! r ! length agents - 1 else X ! r ! length agents)" .
  qed
  from np ne sh1 rows slack cols show ?thesis by blast
qed

text \<open>
  Claim C10 says that \<open>update_allocation\<close> changes the slack column only in the row of the
  last item of the path and touches no agent column outside the agents involved. With an
  exchange nobody is willing to make it does both: on the path of items 0, 1, 2 below the
  slack of item 1 goes from 2 to 1 and the column of agent 0, who is not among the agents
  involved, changes in the rows of items 0 and 1.
\<close>

theorem update_allocation_frame_broken:
  "update_allocation [[1, 0, 0, 0], [0, 1, 0, 2], [0, 0, 0, 1]] [indifferent, willing, willing]
     [item_a, item_b, item_c] [Source, Item 0, Item 1, Item 2, Sink] 2 =
   Inr ([[0, 0, 1, 0], [1, 1, 1, 1], [0, 1, 0, 0]], [Some 2, Some 1, None])"
  by code_simp

section \<open>Errors of configuration\<close>

lemma bind_r_Inl_iff:
  "bind_r m f = Inl e \<longleftrightarrow> m = Inl e \<or> (\<exists>x. m = Inr x \<and> f x = Inl e)"
  by (cases m) auto

lemma collect_bundle_error: "collect_bundle items i xs = Inl e \<Longrightarrow> e = IndexError"
proof (induction xs arbitrary: i)
  case Nil
  then show ?case by simp
next
  case (Cons x xs)
  show ?case
  proof (cases "x = 1")
    case False
    with Cons.prems have "collect_bundle items (Suc i) xs = Inl e" by simp
    then show ?thesis by (rule Cons.IH)
  next
    case x: True
    show ?thesis
    proof (cases "i < length items")
      case False
      with x Cons.prems show ?thesis by simp
    next
      case True
      with x Cons.prems have "collect_bundle items (Suc i) xs = Inl e"
        by (simp add: bind_r_Inl_iff)
      then show ?thesis by (rule Cons.IH)
    qed
  qed
qed

lemma get_bundle_error:
  assumes "get_bundle_from_allocation_matrix X items a = Inl e"
  shows "e = IndexError"
proof (cases "list_all (\<lambda>row. a < length row) X")
  case True
  with assms have "collect_bundle items 0 (map (\<lambda>row. row ! a) X) = Inl e"
    by (simp add: get_bundle_from_allocation_matrix_def column_def)
  then show ?thesis by (rule collect_bundle_error)
next
  case False
  with assms show ?thesis
    by (simp add: get_bundle_from_allocation_matrix_def column_def)
qed

lemma get_gain_function_no_weight:
  assumes "criteria \<noteq> ''LorenzDominance''" and "length weights \<le> a"
  shows "get_gain_function X agents items a criteria weights = Inl IndexError"
proof (cases "get_bundle_from_allocation_matrix X items a")
  case (Inl e)
  with get_bundle_error [OF Inl] show ?thesis
    by (simp add: get_gain_function_def)
next
  case (Inr b)
  with assms show ?thesis by (simp add: get_gain_function_def Let_def)
qed

lemma gys_step_no_weight:
  assumes a: "np_argmax (gain_vector st) = Inr a"
    and G1: "add_agent_to_exchange_graph (X_of st) (G_of st) agents items a = Inr G1"
    and p: "sp G1 = Some p"
    and c: "criteria \<noteq> ''LorenzDominance''" and w: "length weights \<le> a"
  shows "isl (gys_step sp agents items criteria weights st)"
proof (cases "update_allocation (X_of st) agents items p a")
  case (Inl e)
  with a G1 p show ?thesis by (simp add: gys_step_def)
next
  case (Inr r)
  obtain X1 ai where r: "r = (X1, ai)" by (cases r)
  show ?thesis
  proof (cases "update_exchange_graph X1 (remove_node G1 Source) agents items p ai")
    case (Inl e)
    with a G1 p Inr r show ?thesis by (simp add: gys_step_def)
  next
    case G3: (Inr G3)
    with a G1 p Inr r get_gain_function_no_weight [OF c w, of X1 agents items]
    show ?thesis by (simp add: gys_step_def)
  qed
qed

lemma gys_step_no_path:
  assumes a: "np_argmax (gain_vector st) = Inr a"
    and G1: "add_agent_to_exchange_graph (X_of st) (G_of st) agents items a = Inr G1"
    and p: "sp G1 = None"
  shows "gys_step sp agents items criteria weights st =
         gys_step sp agents items criteria' weights' st"
  using a G1 p by (simp add: gys_step_def)

lemma gys_step_E_no_weight:
  assumes a: "np_argmax (gain_vector st) = Inr a"
    and G1: "add_agent_to_exchange_graph (X_of st) (G_of st) agents items a = Inr G1"
    and p: "sp G1 = Some p"
    and c: "criteria \<noteq> ''LorenzDominance''" and w: "length weights \<le> a"
  shows "isl (gys_step_E sp agents items criteria weights st)"
proof (cases "update_allocation_E (X_of st) (remove_node G1 Source) (E_of st) agents items p a")
  case (Inl e)
  with a G1 p show ?thesis by (simp add: gys_step_E_def)
next
  case (Inr r)
  obtain X1 G2 E2 ai where r: "r = (X1, G2, E2, ai)" by (cases r)
  show ?thesis
  proof (cases "update_exchange_graph_E X1 G2 E2 agents items p ai")
    case (Inl e)
    with a G1 p Inr r show ?thesis by (simp add: gys_step_E_def)
  next
    case r3: (Inr r3)
    obtain G3 E3 where "r3 = (G3, E3)" by (cases r3)
    with r3 a G1 p Inr r get_gain_function_no_weight [OF c w, of X1 agents items]
    show ?thesis by (simp add: gys_step_E_def)
  qed
qed

lemma gys_step_E_no_path:
  assumes a: "np_argmax (gain_vector st) = Inr a"
    and G1: "add_agent_to_exchange_graph (X_of st) (G_of st) agents items a = Inr G1"
    and p: "sp G1 = None"
  shows "gys_step_E sp agents items criteria weights st =
         gys_step_E sp agents items criteria' weights' st"
  using a G1 p by (simp add: gys_step_E_def)

lemma initialize_slack_column:
  "slack_column (length agents) (initialize_allocation_matrix items agents) = map capacity items"
  by (simp add: slack_column_def initialize_allocation_matrix_def comp_def nth_append)

lemma gys_step_no_weight_error:
  assumes a: "np_argmax (gain_vector st) = Inr a"
    and G1: "add_agent_to_exchange_graph (X_of st) (G_of st) agents items a = Inr G1"
    and p: "sp G1 = Some p"
    and c: "criteria \<noteq> ''LorenzDominance''" and w: "length weights \<le> a"
  shows "gys_step sp agents items criteria weights st =
         bind_r (update_allocation (X_of st) agents items p a) (\<lambda>(X1, agents_involved).
         bind_r (update_exchange_graph X1 (remove_node G1 Source) agents items p agents_involved)
           (\<lambda>G3. Inl IndexError))"
  using a G1 p by (simp add: gys_step_def get_gain_function_no_weight [OF c w])

lemma gys_step_E_no_weight_error:
  assumes a: "np_argmax (gain_vector st) = Inr a"
    and G1: "add_agent_to_exchange_graph (X_of st) (G_of st) agents items a = Inr G1"
    and p: "sp G1 = Some p"
    and c: "criteria \<noteq> ''LorenzDominance''" and w: "length weights \<le> a"
  shows "gys_step_E sp agents items criteria weights st =
         bind_r (update_allocation_E (X_of st) (remove_node G1 Source) (E_of st) agents items p a)
           (\<lambda>(X1, G2, E2, agents_involved).
         bind_r (update_exchange_graph_E X1 G2 E2 agents items p agents_involved)
           (\<lambda>(G3, E3). Inl IndexError))"
  using a G1 p by (simp add: gys_step_E_def get_gain_function_no_weight [OF c w])

text \<open>
  Claim C4, as amended. Neither engine checks its configuration before the loop. With a
  criterion other than \<open>LorenzDominance\<close> and a list of weights that has no entry for the
  agent, \<open>get_gain_function\<close> raises \<open>IndexError\<close>. An iteration of either engine in which
  such an agent is picked and a path is found fails, and it fails after the transfer: the
  iteration runs \<open>update_allocation\<close> and the update of the exchange graph first, and when
  both have returned the error of the iteration is the \<open>IndexError\<close> of \<open>get_gain_function\<close>
  on the matrix that the transfer has produced. An iteration in which no path is found
  does not depend on the criterion or the weights. The capacities are copied into the
  slack column as they are.
\<close>

theorem missing_weight_fails_in_iteration:
  "(criteria \<noteq> ''LorenzDominance'' \<and> length weights \<le> a \<longrightarrow>
      get_gain_function X agents items a criteria weights = Inl IndexError) \<and>
   (np_argmax (gain_vector st) = Inr a \<and>
    add_agent_to_exchange_graph (X_of st) (G_of st) agents items a = Inr G1 \<longrightarrow>
      (sp G1 = None \<longrightarrow>
         gys_step sp agents items criteria weights st =
           gys_step sp agents items ''LorenzDominance'' [] st) \<and>
      (sp G1 = Some p \<and> criteria \<noteq> ''LorenzDominance'' \<and> length weights \<le> a \<longrightarrow>
         isl (gys_step sp agents items criteria weights st) \<and>
         gys_step sp agents items criteria weights st =
           bind_r (update_allocation (X_of st) agents items p a) (\<lambda>(X1, agents_involved).
           bind_r (update_exchange_graph X1 (remove_node G1 Source) agents items p agents_involved)
             (\<lambda>G3. Inl IndexError)) \<and>
         (update_allocation (X_of st) agents items p a = Inr (X1, ai) \<and>
          update_exchange_graph X1 (remove_node G1 Source) agents items p ai = Inr G3 \<longrightarrow>
            get_gain_function X1 agents items a criteria weights = Inl IndexError \<and>
            gys_step sp agents items criteria weights st = Inl IndexError))) \<and>
   (np_argmax (gain_vector stE) = Inr a \<and>
    add_agent_to_exchange_graph (X_of stE) (G_of stE) agents items a = Inr G1 \<longrightarrow>
      (sp G1 = None \<longrightarrow>
         gys_step_E sp agents items criteria weights stE =
           gys_step_E sp agents items ''LorenzDominance'' [] stE) \<and>
      (sp G1 = Some p \<and> criteria \<noteq> ''LorenzDominance'' \<and> length weights \<le> a \<longrightarrow>
         isl (gys_step_E sp agents items criteria weights stE) \<and>
         gys_step_E sp agents items criteria weights stE =
           bind_r (update_allocation_E (X_of stE) (remove_node G1 Source) (E_of stE) agents items p a)
             (\<lambda>(X1, G2, E2, agents_involved).
           bind_r (update_exchange_graph_E X1 G2 E2 agents items p agents_involved)
             (\<lambda>(G3, E3). Inl IndexError)) \<and>
         (update_allocation_E (X_of stE) (remove_node G1 Source) (E_of stE) agents items p a =
            Inr (X1E, G2E, E2E, aiE) \<and>
          update_exchange_graph_E X1E G2E E2E agents items p aiE = Inr (G3E, E3E) \<longrightarrow>
            get_gain_function X1E agents items a criteria weights = Inl IndexError \<and>
            gys_step_E sp agents items criteria weights stE = Inl IndexError))) \<and>
   slack_column (length agents) (initialize_allocation_matrix items agents) = map capacity items"
proof (intro conjI impI)
  assume "criteria \<noteq> ''LorenzDominance'' \<and> length weights \<le> a"
  then show "get_gain_function X agents items a criteria weights = Inl IndexError"
    by (simp add: get_gain_function_no_weight)
next
  assume h: "np_argmax (gain_vector st) = Inr a \<and>
    add_agent_to_exchange_graph (X_of st) (G_of st) agents items a = Inr G1"
    and n: "sp G1 = None"
  from h n show "gys_step sp agents items criteria weights st =
           gys_step sp agents items ''LorenzDominance'' [] st"
    by (intro gys_step_no_path [of st a agents items G1 sp]) simp_all
next
  assume h: "np_argmax (gain_vector st) = Inr a \<and>
    add_agent_to_exchange_graph (X_of st) (G_of st) agents items a = Inr G1"
    and c: "sp G1 = Some p \<and> criteria \<noteq> ''LorenzDominance'' \<and> length weights \<le> a"
  from h c show "isl (gys_step sp agents items criteria weights st)"
    by (intro gys_step_no_weight [of st a agents items G1 sp p]) simp_all
  from h c show e: "gys_step sp agents items criteria weights st =
           bind_r (update_allocation (X_of st) agents items p a) (\<lambda>(X1, agents_involved).
           bind_r (update_exchange_graph X1 (remove_node G1 Source) agents items p agents_involved)
             (\<lambda>G3. Inl IndexError))"
    by (intro gys_step_no_weight_error) simp_all
  from c show "get_gain_function X1 agents items a criteria weights = Inl IndexError"
    by (simp add: get_gain_function_no_weight)
  assume "update_allocation (X_of st) agents items p a = Inr (X1, ai) \<and>
          update_exchange_graph X1 (remove_node G1 Source) agents items p ai = Inr G3"
  with e show "gys_step sp agents items criteria weights st = Inl IndexError" by simp
next
  assume h: "np_argmax (gain_vector stE) = Inr a \<and>
    add_agent_to_exchange_graph (X_of stE) (G_of stE) agents items a = Inr G1"
    and n: "sp G1 = None"
  from h n show "gys_step_E sp agents items criteria weights stE =
           gys_step_E sp agents items ''LorenzDominance'' [] stE"
    by (intro gys_step_E_no_path [of stE a agents items G1 sp]) simp_all
next
  assume h: "np_argmax (gain_vector stE) = Inr a \<and>
    add_agent_to_exchange_graph (X_of stE) (G_of stE) agents items a = Inr G1"
    and c: "sp G1 = Some p \<and> criteria \<noteq> ''LorenzDominance'' \<and> length weights \<le> a"
  from h c show "isl (gys_step_E sp agents items criteria weights stE)"
    by (intro gys_step_E_no_weight [of stE a agents items G1 sp p]) simp_all
  from h c show e: "gys_step_E sp agents items criteria weights stE =
           bind_r (update_allocation_E (X_of stE) (remove_node G1 Source) (E_of stE) agents items p a)
             (\<lambda>(X1, G2, E2, agents_involved).
           bind_r (update_exchange_graph_E X1 G2 E2 agents items p agents_involved)
             (\<lambda>(G3, E3). Inl IndexError))"
    by (intro gys_step_E_no_weight_error) simp_all
  from c show "get_gain_function X1E agents items a criteria weights = Inl IndexError"
    by (simp add: get_gain_function_no_weight)
  assume "update_allocation_E (X_of stE) (remove_node G1 Source) (E_of stE) agents items p a =
            Inr (X1E, G2E, E2E, aiE) \<and>
          update_exchange_graph_E X1E G2E E2E agents items p aiE = Inr (G3E, E3E)"
  with e show "gys_step_E sp agents items criteria weights stE = Inl IndexError" by simp
next
  show "slack_column (length agents) (initialize_allocation_matrix items agents) =
      map capacity items"
    by (rule initialize_slack_column)
qed

theorem missing_weight_fails_in_iteration_witness:
  "np_argmax (gain_vector (initial_state [taker] [item_a])) = Inr 0 \<and>
   add_agent_to_exchange_graph (X_of (initial_state [taker] [item_a]))
     (G_of (initial_state [taker] [item_a])) [taker] [item_a] 0 =
     Inr [(Item 0, Sink), (Source, Item 0)] \<and>
   find_shortest_path [(Item 0, Sink), (Source, Item 0)] = Some [Source, Item 0, Sink] \<and>
   update_allocation (X_of (initial_state [taker] [item_a])) [taker] [item_a]
     [Source, Item 0, Sink] 0 = Inr ([[1, 0]], [Some 0]) \<and>
   update_exchange_graph [[1, 0]] (remove_node [(Item 0, Sink), (Source, Item 0)] Source)
     [taker] [item_a] [Source, Item 0, Sink] [Some 0] = Inr [] \<and>
   get_gain_function [[1, 0]] [taker] [item_a] 0 ''WeightedNash'' [] = Inl IndexError \<and>
   gys_step find_shortest_path [taker] [item_a] ''WeightedNash'' []
     (initial_state [taker] [item_a]) = Inl IndexError \<and>
   update_allocation_E (X_of (initial_state_E [taker] [item_a]))
     (remove_node [(Item 0, Sink), (Source, Item 0)] Source)
     (E_of (initial_state_E [taker] [item_a])) [taker] [item_a] [Source, Item 0, Sink] 0 =
     Inr ([[1, 0]], [(Item 0, Sink)], [[[]]], [0]) \<and>
   update_exchange_graph_E [[1, 0]] [(Item 0, Sink)] [[[]]] [taker] [item_a]
     [Source, Item 0, Sink] [0] = Inr ([], [[[]]]) \<and>
   gys_step_E find_shortest_path [taker] [item_a] ''WeightedNash'' []
     (initial_state_E [taker] [item_a]) = Inl IndexError \<and>
   add_agent_to_exchange_graph (X_of (initial_state [indifferent] [item_a]))
     (G_of (initial_state [indifferent] [item_a])) [indifferent] [item_a] 0 =
     Inr [(Item 0, Sink)] \<and>
   find_shortest_path [(Item 0, Sink)] = None \<and>
   gys_step find_shortest_path [indifferent] [item_a] ''WeightedNash'' []
     (initial_state [indifferent] [item_a]) =
   gys_step find_shortest_path [indifferent] [item_a] ''LorenzDominance'' []
     (initial_state [indifferent] [item_a]) \<and>
   gys_step_E find_shortest_path [indifferent] [item_a] ''WeightedNash'' []
     (initial_state_E [indifferent] [item_a]) =
   gys_step_E find_shortest_path [indifferent] [item_a] ''LorenzDominance'' []
     (initial_state_E [indifferent] [item_a])"
proof -
  have a: "np_argmax (gain_vector (initial_state [taker] [item_a])) = Inr 0" by code_simp
  have g: "add_agent_to_exchange_graph (X_of (initial_state [taker] [item_a]))
     (G_of (initial_state [taker] [item_a])) [taker] [item_a] 0 =
     Inr [(Item 0, Sink), (Source, Item 0)]" by code_simp
  have aE: "np_argmax (gain_vector (initial_state_E [taker] [item_a])) = Inr 0" by code_simp
  have gE: "add_agent_to_exchange_graph (X_of (initial_state_E [taker] [item_a]))
     (G_of (initial_state_E [taker] [item_a])) [taker] [item_a] 0 =
     Inr [(Item 0, Sink), (Source, Item 0)]" by code_simp
  have p: "find_shortest_path [(Item 0, Sink), (Source, Item 0)] = Some [Source, Item 0, Sink]"
    by code_simp
  have u: "update_allocation (X_of (initial_state [taker] [item_a])) [taker] [item_a]
     [Source, Item 0, Sink] 0 = Inr ([[1, 0]], [Some 0])" by code_simp
  have x: "update_exchange_graph [[1, 0]] (remove_node [(Item 0, Sink), (Source, Item 0)] Source)
     [taker] [item_a] [Source, Item 0, Sink] [Some 0] = Inr []" by code_simp
  have uE: "update_allocation_E (X_of (initial_state_E [taker] [item_a]))
     (remove_node [(Item 0, Sink), (Source, Item 0)] Source)
     (E_of (initial_state_E [taker] [item_a])) [taker] [item_a] [Source, Item 0, Sink] 0 =
     Inr ([[1, 0]], [(Item 0, Sink)], [[[]]], [0])" by code_simp
  have xE: "update_exchange_graph_E [[1, 0]] [(Item 0, Sink)] [[[]]] [taker] [item_a]
     [Source, Item 0, Sink] [0] = Inr ([], [[[]]])" by code_simp
  have c: "''WeightedNash'' \<noteq> ''LorenzDominance''" by simp
  note inst = missing_weight_fails_in_iteration
    [where criteria = "''WeightedNash''" and weights = "[]" and a = 0 and X = "[[1, 0]]"
       and agents = "[taker]" and items = "[item_a]"
       and st = "initial_state [taker] [item_a]" and ?G1.0 = "[(Item 0, Sink), (Source, Item 0)]"
       and sp = find_shortest_path and p = "[Source, Item 0, Sink]"
       and ?X1.0 = "[[1, 0]]" and ai = "[Some 0]" and ?G3.0 = "[]"
       and stE = "initial_state_E [taker] [item_a]"
       and ?X1E.0 = "[[1, 0]]" and ?G2E.0 = "[(Item 0, Sink)]" and ?E2E.0 = "[[[]]]"
       and aiE = "[0]" and ?G3E.0 = "[]" and ?E3E.0 = "[[[]]]"]
  from inst c have 1: "get_gain_function [[1, 0]] [taker] [item_a] 0 ''WeightedNash'' [] =
      Inl IndexError" by simp
  from inst a g p u x c have 2: "gys_step find_shortest_path [taker] [item_a] ''WeightedNash'' []
          (initial_state [taker] [item_a]) = Inl IndexError" by simp
  from inst aE gE p uE xE c have 3: "gys_step_E find_shortest_path [taker] [item_a]
      ''WeightedNash'' [] (initial_state_E [taker] [item_a]) = Inl IndexError" by simp
  have b: "np_argmax (gain_vector (initial_state [indifferent] [item_a])) = Inr 0" by code_simp
  have h: "add_agent_to_exchange_graph (X_of (initial_state [indifferent] [item_a]))
     (G_of (initial_state [indifferent] [item_a])) [indifferent] [item_a] 0 =
     Inr [(Item 0, Sink)]" by code_simp
  have bE: "np_argmax (gain_vector (initial_state_E [indifferent] [item_a])) = Inr 0"
    by code_simp
  have hE: "add_agent_to_exchange_graph (X_of (initial_state_E [indifferent] [item_a]))
     (G_of (initial_state_E [indifferent] [item_a])) [indifferent] [item_a] 0 =
     Inr [(Item 0, Sink)]" by code_simp
  have n: "find_shortest_path [(Item 0, Sink)] = None" by code_simp
  note inst2 = missing_weight_fails_in_iteration
    [where criteria = "''WeightedNash''" and weights = "[]" and a = 0
       and agents = "[indifferent]" and items = "[item_a]"
       and st = "initial_state [indifferent] [item_a]" and ?G1.0 = "[(Item 0, Sink)]"
       and sp = find_shortest_path
       and stE = "initial_state_E [indifferent] [item_a]"]
  from inst2 b h n have 4:
    "gys_step find_shortest_path [indifferent] [item_a] ''WeightedNash'' []
       (initial_state [indifferent] [item_a]) =
     gys_step find_shortest_path [indifferent] [item_a] ''LorenzDominance'' []
       (initial_state [indifferent] [item_a])" by simp
  from inst2 bE hE n have 5:
    "gys_step_E find_shortest_path [indifferent] [item_a] ''WeightedNash'' []
       (initial_state_E [indifferent] [item_a]) =
     gys_step_E find_shortest_path [indifferent] [item_a] ''LorenzDominance'' []
       (initial_state_E [indifferent] [item_a])" by simp
  from a g p u x 1 2 uE xE 3 h n 4 5 show ?thesis by blast
qed

text \<open>
  The runs that the claim excludes. With a weight missing for an agent that never finds a
  path the run returns normally. With two agents and one weight the first iteration
  completes and changes the matrix, and the run fails in the second. With an item of
  negative capacity both engines return normally, with a slack of -2.
\<close>

theorem no_fail_fast_on_configuration:
  "general_yankee_swap find_shortest_path 3 [taker, indifferent] [item_a] ''WeightedHarmonic'' [1] =
     Some (Inr ([[1, 0, 0]], [1, 0, 0])) \<and>
   gys_iterate find_shortest_path [taker, taker] [item_two] ''WeightedLeximin'' [1] 1
     (initial_state [taker, taker] [item_two]) =
     Inr \<lparr>X_of = [[1, 0, 1]], G_of = [(Item 0, Sink)], players = [0, 1],
          gain_vector = [Fin (- 1), Fin 0], agents_involved_arr = [1]\<rparr> \<and>
   general_yankee_swap find_shortest_path 4 [taker, taker] [item_two] ''WeightedLeximin'' [1] =
     Some (Inl IndexError) \<and>
   general_yankee_swap_E find_shortest_path 4 [taker, taker] [item_two] ''WeightedLeximin'' [1] =
     Some (Inl IndexError) \<and>
   general_yankee_swap find_shortest_path 2 [taker] [item_neg] ''LorenzDominance'' [] =
     Some (Inr ([[1, - 2]], [1, 0])) \<and>
   general_yankee_swap_E find_shortest_path 2 [taker] [item_neg] ''LorenzDominance'' [] =
     Some (Inr ([[1, - 2]], [1, 0]))"
  by code_simp

end
